theory Spec2Isabelle
  imports Main "HOL-Library.Word"
begin

unbundle bit_operations_syntax

section \<open>TSL UMD protocol: wire model\<close>

text \<open>
  The embedding follows \<^verbatim>\<open>src/protocol/types.ts\<close>, \<^verbatim>\<open>src/protocol/parser.ts\<close>,
  \<^verbatim>\<open>src/protocol/builder.ts\<close> and the TCP receive path of \<^verbatim>\<open>src/main/network.ts\<close>.
  A Node \<^verbatim>\<open>Buffer\<close> is a list of 8-bit words, a JavaScript string is the list of its
  UTF-16 code units, and a JavaScript number that the code uses as an integer is an
  \<open>int\<close> (message fields) or a \<open>nat\<close> (lengths, offsets and values read from bytes).
\<close>

type_synonym byte = "8 word"
type_synonym buffer = "byte list"
type_synonym js_string = "16 word list"

text \<open>\<^verbatim>\<open>enum TallyState { OFF = 0, RED = 1, GREEN = 2, AMBER = 3 }\<close>\<close>

datatype TallyState = OFF | RED | GREEN | AMBER

text \<open>\<^verbatim>\<open>enum Brightness { OFF = 0, LOW = 1, MEDIUM = 2, FULL = 3 }\<close>; the constructor
  \<open>OFF\<close> is taken by \<open>TallyState\<close>, so the first member is \<open>BrightOFF\<close>.\<close>

datatype Brightness = BrightOFF | LOW | MEDIUM | FULL

datatype ProtocolVersion = V3_1 | V4_0 | V5_0

text \<open>The numeric value of an enum member, and the cast \<^verbatim>\<open>n as TallyState\<close> of a number
  that the parser has masked to two bits.\<close>

fun TallyState_val :: "TallyState \<Rightarrow> nat" where
  "TallyState_val OFF = 0"
| "TallyState_val RED = 1"
| "TallyState_val GREEN = 2"
| "TallyState_val AMBER = 3"

definition as_TallyState :: "nat \<Rightarrow> TallyState" where
  "as_TallyState n = (if n = 0 then OFF else if n = 1 then RED else if n = 2 then GREEN else AMBER)"

fun Brightness_val :: "Brightness \<Rightarrow> nat" where
  "Brightness_val BrightOFF = 0"
| "Brightness_val LOW = 1"
| "Brightness_val MEDIUM = 2"
| "Brightness_val FULL = 3"

definition as_Brightness :: "nat \<Rightarrow> Brightness" where
  "as_Brightness n = (if n = 0 then BrightOFF else if n = 1 then LOW else if n = 2 then MEDIUM else FULL)"

text \<open>\<^verbatim>\<open>interface TslBaseMessage\<close>; a V3.1 message is the base record (its \<^verbatim>\<open>version\<close>
  tag is the constructor of \<open>TslMessage\<close> below).\<close>

record TslBaseMessage =
  address :: int
  tally1 :: bool
  tally2 :: bool
  tally3 :: bool
  tally4 :: bool
  brightness :: Brightness
  displayText :: js_string

type_synonym TslV31Message = TslBaseMessage

text \<open>The object type \<^verbatim>\<open>{ leftTally; textTally; rightTally }\<close> of a V4.0 display, which
  is also the tally part of a V5.0 display message.\<close>

record TallyTriple =
  leftTally :: TallyState
  textTally :: TallyState
  rightTally :: TallyState

record TslV40Message = TslBaseMessage +
  leftDisplay :: TallyTriple
  rightDisplay :: TallyTriple

text \<open>\<^verbatim>\<open>interface TslV50DisplayMessage\<close>; its \<^verbatim>\<open>brightness\<close> field is \<open>displayBrightness\<close>
  here, since \<open>brightness\<close> is a field of the base message, and its \<^verbatim>\<open>text\<close>
  field is \<open>msgText\<close>.\<close>

record TslV50DisplayMessage = TallyTriple +
  index :: int
  displayBrightness :: Brightness
  msgText :: js_string

record Flags =
  unicode :: bool
  screenControl :: bool

record TslV50Message =
  packetByteCount :: int
  minorVersion :: int
  flags :: Flags
  screen :: int
  displays :: "TslV50DisplayMessage list"

datatype TslMessage = MsgV31 TslV31Message | MsgV40 TslV40Message | MsgV50 TslV50Message

fun version :: "TslMessage \<Rightarrow> ProtocolVersion" where
  "version (MsgV31 m) = V3_1"
| "version (MsgV40 m) = V4_0"
| "version (MsgV50 m) = V5_0"

section \<open>Node's Buffer operations used by the codec\<close>

text \<open>
  These are the library calls the source makes, with Node's behaviour:
  \<^item> \<^verbatim>\<open>Buffer.alloc(n)\<close> is \<open>n\<close> zero bytes;
  \<^item> \<^verbatim>\<open>buffer[i] = v\<close> stores \<open>v\<close> modulo 256 and does nothing when \<open>i\<close> is out of range,
    which is what \<open>xs[i := word_of_int v]\<close> does;
  \<^item> \<^verbatim>\<open>buffer.slice(s, e)\<close> clamps both ends to the buffer;
  \<^item> \<^verbatim>\<open>readUInt16LE\<close> and \<^verbatim>\<open>writeUInt16LE\<close> throw a \<^verbatim>\<open>RangeError\<close> when the two bytes
    are not inside the buffer, and \<^verbatim>\<open>writeUInt16LE\<close> also when the value is not an
    unsigned 16-bit integer;
  \<^item> encoding a string as \<^verbatim>\<open>'ascii'\<close> keeps the low byte of every code unit (as
    \<^verbatim>\<open>'latin1'\<close> does); decoding bytes as \<^verbatim>\<open>'ascii'\<close> clears the highest bit of every byte;
  \<^item> \<^verbatim>\<open>'utf16le'\<close> stores a code unit as two bytes, low byte first; decoding reads
    whole pairs and leaves a last odd byte out.
\<close>

datatype error = RangeError

definition alloc :: "nat \<Rightarrow> buffer" where
  "alloc n = replicate n 0"

definition buf_slice :: "buffer \<Rightarrow> nat \<Rightarrow> nat \<Rightarrow> buffer" where
  "buf_slice buffer s e = drop s (take e buffer)"

definition readUInt16LE :: "buffer \<Rightarrow> nat \<Rightarrow> error + nat" where
  "readUInt16LE buffer offset =
     (if offset + 2 \<le> length buffer
      then Inr (unat (buffer ! offset) + 256 * unat (buffer ! (offset + 1)))
      else Inl RangeError)"

definition writeUInt16LE :: "buffer \<Rightarrow> int \<Rightarrow> nat \<Rightarrow> error + buffer" where
  "writeUInt16LE buffer v offset =
     (if v < 0 \<or> 65535 < v then Inl RangeError
      else if length buffer < offset + 2 then Inl RangeError
      else Inr (buffer[offset := word_of_int v, offset + 1 := word_of_int (drop_bit 8 v)]))"

text \<open>\<^verbatim>\<open>source.copy(target, offset)\<close> and \<^verbatim>\<open>target.write(string, offset, ...)\<close>: the bytes are
  stored from \<open>offset\<close> on, and those that do not fit are dropped.\<close>

fun copyInto :: "buffer \<Rightarrow> nat \<Rightarrow> buffer \<Rightarrow> buffer" where
  "copyInto target offset [] = target"
| "copyInto target offset (b # bs) = copyInto (target[offset := b]) (Suc offset) bs"

definition from_ascii :: "js_string \<Rightarrow> buffer" where
  "from_ascii s = map (\<lambda>c. ucast c) s"

definition toString_ascii :: "buffer \<Rightarrow> js_string" where
  "toString_ascii bs = map (\<lambda>b. ucast (b AND 0x7F)) bs"

definition from_utf16le :: "js_string \<Rightarrow> buffer" where
  "from_utf16le s = concat (map (\<lambda>c. [ucast c, ucast (drop_bit 8 c)]) s)"

fun toString_utf16le :: "buffer \<Rightarrow> js_string" where
  "toString_utf16le (lo # hi # rest) = (ucast lo OR push_bit 8 (ucast hi)) # toString_utf16le rest"
| "toString_utf16le _ = []"

text \<open>\<^verbatim>\<open>s.padEnd(n, ' ')\<close> and \<^verbatim>\<open>s.replace(/[\x00-\x1F\x7F]/g, ' ')\<close>.\<close>

definition padEnd :: "js_string \<Rightarrow> nat \<Rightarrow> js_string" where
  "padEnd s n = s @ replicate (n - length s) 0x20"

definition replaceControl :: "js_string \<Rightarrow> js_string" where
  "replaceControl s = map (\<lambda>c. if c \<le> 0x1F \<or> c = 0x7F then 0x20 else c) s"

section \<open>The parser (\<^verbatim>\<open>TslParser\<close>)\<close>

text \<open>The loop \<^verbatim>\<open>for (i = 0; i < 18; i++) sum += buffer[i]\<close> followed by
  \<^verbatim>\<open>(~sum + 1) & 0x7F\<close>, which the source writes out in \<^verbatim>\<open>detectVersion\<close>, \<^verbatim>\<open>parseV40\<close> and
  \<^verbatim>\<open>buildV40\<close>. Each of the three runs it on a buffer of more than 18 bytes.\<close>

definition sum18 :: "buffer \<Rightarrow> int" where
  "sum18 buffer = foldl (\<lambda>sum i. sum + uint (buffer ! i)) 0 [0..<18]"

definition expectedChecksum :: "buffer \<Rightarrow> int" where
  "expectedChecksum buffer = (NOT (sum18 buffer) + 1) AND 0x7F"

definition detectHeader :: "buffer \<Rightarrow> ProtocolVersion option" where
  "detectHeader buffer =
     (let header = unat (buffer ! 0) in
      if header \<ge> 0x80 \<and> header \<le> 0xFE then
        (if length buffer > 18 \<and> uint (buffer ! 18) = expectedChecksum buffer
         then Some V4_0 else Some V3_1)
      else None)"

text \<open>\<^verbatim>\<open>detectVersion\<close>: the V5.0 test comes first and returns; every other path falls
  through to the header test, which is \<open>detectHeader\<close>. The subtraction
  \<^verbatim>\<open>buffer.length - 2\<close> is made on a buffer of at least 6 bytes, here and in
  \<^verbatim>\<open>parseV50\<close>, so it is the same on \<open>nat\<close>.\<close>

definition detectVersion :: "buffer \<Rightarrow> error + ProtocolVersion option" where
  "detectVersion buffer =
     (if length buffer < 2 then Inr None
      else if length buffer \<ge> 6 then
        (case readUInt16LE buffer 0 of
           Inl e \<Rightarrow> Inl e
         | Inr pbc \<Rightarrow>
             if pbc = length buffer - 2 then Inr (Some V5_0)
             else Inr (detectHeader buffer))
      else Inr (detectHeader buffer))"

definition parseV31 :: "buffer \<Rightarrow> TslV31Message option" where
  "parseV31 buffer =
     (if length buffer < 18 then None
      else
        let header = unat (buffer ! 0) in
        if header < 0x80 \<or> header > 0xFE then None
        else
          let address = int header - 0x80;
              control = unat (buffer ! 1);
              tally1 = (control AND 0x01 \<noteq> 0);
              tally2 = (control AND 0x02 \<noteq> 0);
              tally3 = (control AND 0x04 \<noteq> 0);
              tally4 = (control AND 0x08 \<noteq> 0);
              brightness = as_Brightness (drop_bit 4 control AND 0x03);
              displayText = replaceControl (toString_ascii (buf_slice buffer 2 18))
          in Some \<lparr>address = address, tally1 = tally1, tally2 = tally2, tally3 = tally3,
                   tally4 = tally4, brightness = brightness, displayText = displayText\<rparr>)"

definition parseTallyByte :: "nat \<Rightarrow> TallyTriple" where
  "parseTallyByte byte =
     \<lparr>leftTally = as_TallyState (drop_bit 4 byte AND 0x03),
      textTally = as_TallyState (drop_bit 2 byte AND 0x03),
      rightTally = as_TallyState (byte AND 0x03)\<rparr>"

definition parseV40 :: "buffer \<Rightarrow> TslV40Message option" where
  "parseV40 buffer =
     (if length buffer < 22 then None
      else case parseV31 buffer of
        None \<Rightarrow> None
      | Some v31 \<Rightarrow>
          if uint (buffer ! 18) \<noteq> expectedChecksum buffer then None
          else
            let vbc = unat (buffer ! 19);
                minorVersion = drop_bit 4 vbc AND 0x07;
                xdataCount = vbc AND 0x0F
            in if length buffer < 20 + xdataCount then None
               else
                 let xbyte1 = unat (buffer ! 20);
                     xbyte2 = unat (buffer ! 21)
                 in Some \<lparr>address = address v31, tally1 = tally1 v31, tally2 = tally2 v31,
                          tally3 = tally3 v31, tally4 = tally4 v31,
                          brightness = brightness v31, displayText = displayText v31,
                          leftDisplay = parseTallyByte xbyte1,
                          rightDisplay = parseTallyByte xbyte2\<rparr>)"

text \<open>One pass through the body of the \<^verbatim>\<open>while (offset < buffer.length)\<close> loop of
  \<^verbatim>\<open>parseV50\<close>: \<open>Inr None\<close> when the loop ends (its condition is false, or a \<^verbatim>\<open>break\<close>),
  \<open>Inr (Some (display, offset'))\<close> when a display is pushed and the loop goes on at
  \<open>offset'\<close>.\<close>

definition walkStep :: "buffer \<Rightarrow> bool \<Rightarrow> nat \<Rightarrow> error + (TslV50DisplayMessage \<times> nat) option" where
  "walkStep buffer unicode' offset =
     (if \<not> offset < length buffer then Inr None
      else if length buffer - offset < 6 then Inr None
      else case readUInt16LE buffer offset of
        Inl e \<Rightarrow> Inl e
      | Inr index' \<Rightarrow>
      case readUInt16LE buffer (offset + 2) of
        Inl e \<Rightarrow> Inl e
      | Inr control \<Rightarrow>
          let rightTally = as_TallyState (control AND 0x03);
              textTally = as_TallyState (drop_bit 2 control AND 0x03);
              leftTally = as_TallyState (drop_bit 4 control AND 0x03);
              brightness = as_Brightness (drop_bit 6 control AND 0x03);
              isControlData = (control AND 0x8000 \<noteq> 0)
          in if isControlData then Inr None
             else case readUInt16LE buffer (offset + 4) of
               Inl e \<Rightarrow> Inl e
             | Inr textLength \<Rightarrow>
                 let offset = offset + 6 in
                 if length buffer - offset < textLength then Inr None
                 else
                   let text = (if unicode'
                               then toString_utf16le (buf_slice buffer offset (offset + textLength))
                               else toString_ascii (buf_slice buffer offset (offset + textLength)));
                       offset = offset + textLength
                   in Inr (Some (\<lparr>leftTally = leftTally, textTally = textTally,
                                   rightTally = rightTally, index = int index',
                                   displayBrightness = brightness, msgText = text\<rparr>, offset)))"

lemma walkStep_advance:
  assumes "walkStep buffer unicode' offset = Inr (Some (d, offset'))"
  shows "offset + 6 \<le> offset' \<and> offset' \<le> length buffer \<and> offset < length buffer"
  using assms
  by (auto simp: walkStep_def Let_def split: if_splits sum.splits)

function parseDisplays ::
  "buffer \<Rightarrow> bool \<Rightarrow> nat \<Rightarrow> TslV50DisplayMessage list \<Rightarrow> error + TslV50DisplayMessage list" where
  "parseDisplays buffer unicode' offset displays' =
     (case walkStep buffer unicode' offset of
        Inl e \<Rightarrow> Inl e
      | Inr None \<Rightarrow> Inr displays'
      | Inr (Some (display, offset')) \<Rightarrow>
          parseDisplays buffer unicode' offset' (displays' @ [display]))"
  by pat_completeness auto
termination
proof (relation "measure (\<lambda>(buffer, unicode', offset, displays'). length buffer - offset)")
  show "wf (measure (\<lambda>(buffer, unicode', offset, displays'). length buffer - offset))"
    by simp
next
  fix buffer :: buffer and unicode' offset and displays' :: "TslV50DisplayMessage list"
    and x2 x2a x y
  assume "walkStep buffer unicode' offset = Inr x2" "x2 = Some x2a" "(x, y) = x2a"
  then have "walkStep buffer unicode' offset = Inr (Some (x, y))"
    by simp
  from walkStep_advance [OF this]
  show "((buffer, unicode', y, displays' @ [x]), (buffer, unicode', offset, displays'))
        \<in> measure (\<lambda>(buffer, unicode', offset, displays'). length buffer - offset)"
    by simp arith
qed

declare parseDisplays.simps [simp del]

definition parseV50 :: "buffer \<Rightarrow> error + TslV50Message option" where
  "parseV50 buffer =
     (if length buffer < 6 then Inr None
      else case readUInt16LE buffer 0 of
        Inl e \<Rightarrow> Inl e
      | Inr pbc \<Rightarrow>
          if pbc \<noteq> length buffer - 2 then Inr None
          else
            let ver = unat (buffer ! 2);
                flags = unat (buffer ! 3)
            in case readUInt16LE buffer 4 of
              Inl e \<Rightarrow> Inl e
            | Inr screen' \<Rightarrow>
                let unicode = (flags AND 0x01 \<noteq> 0);
                    screenControl = (flags AND 0x02 \<noteq> 0)
                in if screenControl then
                     Inr (Some \<lparr>packetByteCount = int pbc, minorVersion = int ver,
                                flags = \<lparr>unicode = unicode, screenControl = screenControl\<rparr>,
                                screen = int screen', displays = []\<rparr>)
                   else case parseDisplays buffer unicode 6 [] of
                     Inl e \<Rightarrow> Inl e
                   | Inr displays' \<Rightarrow>
                       Inr (Some \<lparr>packetByteCount = int pbc, minorVersion = int ver,
                                  flags = \<lparr>unicode = unicode, screenControl = screenControl\<rparr>,
                                  screen = int screen', displays = displays'\<rparr>))"

definition parse :: "buffer \<Rightarrow> error + TslMessage option" where
  "parse buffer =
     (case detectVersion buffer of
        Inl e \<Rightarrow> Inl e
      | Inr (Some V3_1) \<Rightarrow> Inr (map_option MsgV31 (parseV31 buffer))
      | Inr (Some V4_0) \<Rightarrow> Inr (map_option MsgV40 (parseV40 buffer))
      | Inr (Some V5_0) \<Rightarrow>
          (case parseV50 buffer of Inl e \<Rightarrow> Inl e | Inr r \<Rightarrow> Inr (map_option MsgV50 r))
      | Inr None \<Rightarrow> Inr None)"

section \<open>The builder (\<^verbatim>\<open>TslBuilder\<close>)\<close>

definition buildV31 :: "TslV31Message \<Rightarrow> buffer" where
  "buildV31 message =
     (let buffer = alloc 18;
          buffer = buffer[0 := word_of_int (address message + 0x80)];
          control = (0 :: nat);
          control = (if tally1 message then control OR 0x01 else control);
          control = (if tally2 message then control OR 0x02 else control);
          control = (if tally3 message then control OR 0x04 else control);
          control = (if tally4 message then control OR 0x08 else control);
          control = control OR push_bit 4 (Brightness_val (brightness message) AND 0x03);
          buffer = buffer[1 := of_nat control];
          text = take 16 (padEnd (displayText message) 16)
      in copyInto buffer 2 (take 16 (from_ascii text)))"

definition buildTallyByte :: "TallyTriple \<Rightarrow> nat" where
  "buildTallyByte display =
     push_bit 4 (TallyState_val (leftTally display) AND 0x03) OR
     push_bit 2 (TallyState_val (textTally display) AND 0x03) OR
     (TallyState_val (rightTally display) AND 0x03)"

text \<open>\<^verbatim>\<open>{ ...message, version: V3_1 }\<close> keeps the base fields of the V4.0 message, which is
  \<open>TslBaseMessage.truncate\<close>.\<close>

definition buildV40 :: "TslV40Message \<Rightarrow> buffer" where
  "buildV40 message =
     (let v31Buffer = buildV31 (TslBaseMessage.truncate message);
          buffer = alloc 22;
          buffer = copyInto buffer 0 v31Buffer;
          buffer = buffer[18 := word_of_int (expectedChecksum buffer)];
          buffer = buffer[19 := 0x02];
          buffer = buffer[20 := of_nat (buildTallyByte (leftDisplay message))];
          buffer = buffer[21 := of_nat (buildTallyByte (rightDisplay message))]
      in buffer)"

definition textBytesOf :: "bool \<Rightarrow> js_string \<Rightarrow> buffer" where
  "textBytesOf unicode' s = (if unicode' then from_utf16le s else from_ascii s)"

text \<open>The first loop of \<^verbatim>\<open>buildV50\<close>: \<^verbatim>\<open>dataSize\<close> starts at 4 and grows by
  \<^verbatim>\<open>6 + textBytes.length\<close> for each display.\<close>

definition dataSizeOf :: "TslV50Message \<Rightarrow> nat" where
  "dataSizeOf message =
     foldl (\<lambda>dataSize display.
              dataSize + (6 + length (textBytesOf (unicode (flags message)) (msgText display))))
       4 (displays message)"

definition displayControl :: "TslV50DisplayMessage \<Rightarrow> nat" where
  "displayControl display =
     (let control = (0 :: nat);
          control = control OR (TallyState_val (rightTally display) AND 0x03);
          control = control OR push_bit 2 (TallyState_val (textTally display) AND 0x03);
          control = control OR push_bit 4 (TallyState_val (leftTally display) AND 0x03);
          control = control OR push_bit 6 (Brightness_val (displayBrightness display) AND 0x03)
      in control)"

text \<open>The second loop of \<^verbatim>\<open>buildV50\<close>, over the displays still to be written, with the
  buffer and the running \<^verbatim>\<open>offset\<close> as the state.\<close>

fun writeDisplays ::
  "bool \<Rightarrow> TslV50DisplayMessage list \<Rightarrow> buffer \<Rightarrow> nat \<Rightarrow> error + buffer" where
  "writeDisplays unicode' [] buffer offset = Inr buffer"
| "writeDisplays unicode' (display # rest) buffer offset =
     (case writeUInt16LE buffer (index display) offset of
        Inl e \<Rightarrow> Inl e
      | Inr buffer \<Rightarrow>
      let offset = offset + 2 in
      case writeUInt16LE buffer (int (displayControl display)) offset of
        Inl e \<Rightarrow> Inl e
      | Inr buffer \<Rightarrow>
      let offset = offset + 2;
          textBytes = textBytesOf unicode' (msgText display)
      in
      case writeUInt16LE buffer (int (length textBytes)) offset of
        Inl e \<Rightarrow> Inl e
      | Inr buffer \<Rightarrow>
      let offset = offset + 2;
          buffer = copyInto buffer offset textBytes;
          offset = offset + length textBytes
      in writeDisplays unicode' rest buffer offset)"

definition buildV50 :: "TslV50Message \<Rightarrow> error + buffer" where
  "buildV50 message =
     (let dataSize = dataSizeOf message;
          buffer = alloc (2 + dataSize)
      in case writeUInt16LE buffer (int dataSize) 0 of
        Inl e \<Rightarrow> Inl e
      | Inr buffer \<Rightarrow>
      let buffer = buffer[2 := word_of_int (minorVersion message)];
          flags' = (0 :: nat);
          flags' = (if unicode (flags message) then flags' OR 0x01 else flags');
          flags' = (if screenControl (flags message) then flags' OR 0x02 else flags');
          buffer = buffer[3 := of_nat flags']
      in case writeUInt16LE buffer (screen message) 4 of
        Inl e \<Rightarrow> Inl e
      | Inr buffer \<Rightarrow> writeDisplays (unicode (flags message)) (displays message) buffer 6)"

subsection \<open>TCP framing\<close>

definition DLE :: byte where
  "DLE = 0xFE"

definition STX :: byte where
  "STX = 0x02"

definition countDle :: "buffer \<Rightarrow> nat" where
  "countDle buffer = foldl (\<lambda>dleCount byte. if byte = DLE then dleCount + 1 else dleCount) 0 buffer"

text \<open>The copying loop of \<^verbatim>\<open>wrapForTcp\<close> over the bytes still to be copied:
  \<^verbatim>\<open>wrapped[offset++] = byte\<close>, and once more with \<^verbatim>\<open>DLE\<close> after a \<^verbatim>\<open>DLE\<close>.\<close>

fun stuffLoop :: "buffer \<Rightarrow> nat \<Rightarrow> buffer \<Rightarrow> buffer" where
  "stuffLoop wrapped offset [] = wrapped"
| "stuffLoop wrapped offset (byte # rest) =
     (let wrapped = wrapped[offset := byte];
          offset = offset + 1
      in if byte = DLE then stuffLoop (wrapped[offset := DLE]) (offset + 1) rest
         else stuffLoop wrapped offset rest)"

definition wrapForTcp :: "buffer \<Rightarrow> buffer" where
  "wrapForTcp buffer =
     (let dleCount = countDle buffer;
          wrapped = alloc (2 + length buffer + dleCount);
          wrapped = wrapped[0 := DLE];
          wrapped = wrapped[1 := STX]
      in stuffLoop wrapped 2 buffer)"

text \<open>The search loop of \<^verbatim>\<open>unwrapFromTcp\<close>, from index \<open>i\<close> on; the loop condition
  \<^verbatim>\<open>i < buffer.length - 1\<close> is \<open>i + 1 < length buffer\<close>. \<open>None\<close> is \<^verbatim>\<open>start === -1\<close>.\<close>

function findStart :: "buffer \<Rightarrow> nat \<Rightarrow> nat option" where
  "findStart buffer i =
     (if i + 1 < length buffer then
        (if buffer ! i = DLE \<and> buffer ! (i + 1) = STX then Some (i + 2)
         else findStart buffer (i + 1))
      else None)"
  by pat_completeness auto
termination
  by (relation "measure (\<lambda>(buffer, i). length buffer - i)") auto

text \<open>The de-stuffing loop of \<^verbatim>\<open>unwrapFromTcp\<close>, from index \<open>i\<close> on.\<close>

function destuff :: "buffer \<Rightarrow> nat \<Rightarrow> buffer \<Rightarrow> buffer" where
  "destuff buffer i result =
     (if i < length buffer then
        (if buffer ! i = DLE \<and> i + 1 < length buffer \<and> buffer ! (i + 1) = DLE
         then destuff buffer (i + 2) (result @ [DLE])
         else destuff buffer (i + 1) (result @ [buffer ! i]))
      else result)"
  by pat_completeness auto
termination
  by (relation "measure (\<lambda>(buffer, i, result). length buffer - i)") auto

definition unwrapFromTcp :: "buffer \<Rightarrow> buffer option" where
  "unwrapFromTcp buffer =
     (case findStart buffer 0 of
        None \<Rightarrow> None
      | Some start \<Rightarrow> Some (destuff buffer start []))"

section \<open>The TCP receive path (\<^verbatim>\<open>TcpServer.handleData\<close>)\<close>

text \<open>A \<^verbatim>\<open>ParsedPacket\<close> without its \<^verbatim>\<open>timestamp\<close> (the wall clock) and its \<^verbatim>\<open>hexDump\<close>
  (a rendering of \<open>rawData\<close>).\<close>

record ParsedPacket =
  rawData :: buffer
  parsed :: "TslMessage option"
  error :: "string option"
  source :: string

definition parsePacket :: "buffer \<Rightarrow> string \<Rightarrow> error + ParsedPacket" where
  "parsePacket buffer src =
     (case parse buffer of
        Inl e \<Rightarrow> Inl e
      | Inr p \<Rightarrow>
          Inr \<lparr>rawData = buffer, parsed = p,
               error = (if p \<noteq> None then None else Some ''Failed to parse packet''),
               source = src\<rparr>)"

text \<open>The last step of the loop body: what is left is emitted as one packet and the
  receive buffer is emptied.\<close>

definition emitRaw ::
  "buffer \<Rightarrow> string \<Rightarrow> ParsedPacket list \<Rightarrow> error + (buffer \<times> ParsedPacket list)" where
  "emitRaw receiveBuffer src emitted =
     (if length receiveBuffer > 0 then
        (case parsePacket receiveBuffer src of
           Inl e \<Rightarrow> Inl e
         | Inr packet \<Rightarrow> Inr (alloc 0, emitted @ [packet]))
      else Inr (receiveBuffer, emitted))"

text \<open>The \<^verbatim>\<open>while (this.receiveBuffer.length > 0)\<close> loop: the state is the receive buffer
  and the packets emitted so far, in order.\<close>

function handleLoop ::
  "buffer \<Rightarrow> string \<Rightarrow> ParsedPacket list \<Rightarrow> error + (buffer \<times> ParsedPacket list)" where
  "handleLoop receiveBuffer src emitted =
     (if \<not> length receiveBuffer > 0 then Inr (receiveBuffer, emitted)
      else case unwrapFromTcp receiveBuffer of
        Some unwrapped \<Rightarrow>
          (case parsePacket unwrapped src of
             Inl e \<Rightarrow> Inl e
           | Inr packet \<Rightarrow> Inr (alloc 0, emitted @ [packet]))
      | None \<Rightarrow>
          if length receiveBuffer \<ge> 18 then
            (case detectVersion receiveBuffer of
               Inl e \<Rightarrow> Inl e
             | Inr v \<Rightarrow>
                 if v = Some V3_1 \<and> length receiveBuffer \<ge> 18 then
                   (case parsePacket (buf_slice receiveBuffer 0 18) src of
                      Inl e \<Rightarrow> Inl e
                    | Inr packet \<Rightarrow>
                        handleLoop (drop 18 receiveBuffer) src (emitted @ [packet]))
                 else if v = Some V4_0 \<and> length receiveBuffer \<ge> 22 then
                   (case parsePacket (buf_slice receiveBuffer 0 22) src of
                      Inl e \<Rightarrow> Inl e
                    | Inr packet \<Rightarrow>
                        handleLoop (drop 22 receiveBuffer) src (emitted @ [packet]))
                 else emitRaw receiveBuffer src emitted)
          else emitRaw receiveBuffer src emitted)"
  by pat_completeness auto
termination
  by (relation "measure (\<lambda>(receiveBuffer, src, emitted). length receiveBuffer)") auto

definition handleData :: "buffer \<Rightarrow> buffer \<Rightarrow> string \<Rightarrow> error + (buffer \<times> ParsedPacket list)" where
  "handleData receiveBuffer data src = handleLoop (receiveBuffer @ data) src []"

text \<open>The \<^verbatim>\<open>'data'\<close> events of one connection, chunk after chunk; the packets of all
  calls are collected in order.\<close>

fun receiveChunks ::
  "buffer \<Rightarrow> string \<Rightarrow> buffer list \<Rightarrow> ParsedPacket list \<Rightarrow> error + (buffer \<times> ParsedPacket list)" where
  "receiveChunks receiveBuffer src [] emitted = Inr (receiveBuffer, emitted)"
| "receiveChunks receiveBuffer src (data # rest) emitted =
     (case handleData receiveBuffer data src of
        Inl e \<Rightarrow> Inl e
      | Inr (receiveBuffer', packets) \<Rightarrow>
          receiveChunks receiveBuffer' src rest (emitted @ packets))"

section \<open>Auxiliary definitions\<close>

text \<open>The byte-stuffed form of a payload as a list: every \<open>DLE\<close> twice. It is what the
  copying loop of \<^verbatim>\<open>wrapForTcp\<close> writes behind the delimiter (\<open>wrapForTcp_eq\<close> below).\<close>

fun stuffed :: "buffer \<Rightarrow> buffer" where
  "stuffed [] = []"
| "stuffed (b # bs) = (if b = DLE then [DLE, DLE] else [b]) @ stuffed bs"

text \<open>The control byte that \<^verbatim>\<open>buildV31\<close> computes, and the text it writes:
  \<^verbatim>\<open>displayText.padEnd(16, ' ').slice(0, 16)\<close>.\<close>

definition v31_control :: "TslBaseMessage \<Rightarrow> nat" where
  "v31_control message =
     (let control = (0 :: nat);
          control = (if tally1 message then control OR 0x01 else control);
          control = (if tally2 message then control OR 0x02 else control);
          control = (if tally3 message then control OR 0x04 else control);
          control = (if tally4 message then control OR 0x08 else control);
          control = control OR push_bit 4 (Brightness_val (brightness message) AND 0x03)
      in control)"

definition text16 :: "js_string \<Rightarrow> js_string" where
  "text16 s = take 16 (padEnd s 16)"

text \<open>Valid V3.1 and V4.0 messages: an address from 0 to 126 and a text of printable
  ASCII characters (\<open>0x20\<close> to \<open>0x7E\<close>). The enum fields are in range by their types.\<close>

definition printable :: "js_string \<Rightarrow> bool" where
  "printable s = list_all (\<lambda>c. 0x20 \<le> c \<and> c \<le> 0x7E) s"

definition valid_V31 :: "TslV31Message \<Rightarrow> bool" where
  "valid_V31 message =
     (0 \<le> address message \<and> address message \<le> 126 \<and> printable (displayText message))"

definition valid_V40 :: "TslV40Message \<Rightarrow> bool" where
  "valid_V40 message = valid_V31 (TslBaseMessage.truncate message)"

text \<open>A V4.0 message for the examples: address 1, tally 1, full brightness, the text
  \<^verbatim>\<open>CAM 1\<close>.\<close>

definition example_V40 :: TslV40Message where
  "example_V40 =
     \<lparr>address = 1, tally1 = True, tally2 = False, tally3 = False, tally4 = False,
      brightness = FULL, displayText = [0x43, 0x41, 0x4D, 0x20, 0x31],
      leftDisplay = \<lparr>leftTally = RED, textTally = GREEN, rightTally = AMBER\<rparr>,
      rightDisplay = \<lparr>leftTally = OFF, textTally = OFF, rightTally = RED\<rparr>\<rparr>"

text \<open>The bytes that \<^verbatim>\<open>writeUInt16LE\<close> stores, the bytes that \<^verbatim>\<open>buildV50\<close> writes for one
  display and for a whole message, and the flags byte it computes. \<open>buildV50_eq\<close>
  below proves that \<^verbatim>\<open>buildV50\<close> returns \<open>encodeV50\<close> whenever it returns.\<close>

definition u16le :: "int \<Rightarrow> buffer" where
  "u16le v = [word_of_int v, word_of_int (drop_bit 8 v)]"

definition encodeDisplay :: "bool \<Rightarrow> TslV50DisplayMessage \<Rightarrow> buffer" where
  "encodeDisplay unicode' display =
     u16le (index display) @ u16le (int (displayControl display)) @
     u16le (int (length (textBytesOf unicode' (msgText display)))) @
     textBytesOf unicode' (msgText display)"

definition v50_flags :: "TslV50Message \<Rightarrow> nat" where
  "v50_flags message =
     (let flags' = (0 :: nat);
          flags' = (if unicode (flags message) then flags' OR 0x01 else flags');
          flags' = (if screenControl (flags message) then flags' OR 0x02 else flags')
      in flags')"

definition encodeV50 :: "TslV50Message \<Rightarrow> buffer" where
  "encodeV50 message =
     u16le (int (dataSizeOf message)) @
     [word_of_int (minorVersion message), of_nat (v50_flags message)] @
     u16le (screen message) @
     concat (map (encodeDisplay (unicode (flags message))) (displays message))"

text \<open>The V5.0 messages that \<^verbatim>\<open>buildV50\<close> encodes without a \<^verbatim>\<open>RangeError\<close>: the data size,
  the screen and every display index are unsigned 16-bit numbers.\<close>

definition v50_encodable :: "TslV50Message \<Rightarrow> bool" where
  "v50_encodable message =
     (dataSizeOf message \<le> 65535 \<and> 0 \<le> screen message \<and> screen message \<le> 65535 \<and>
      list_all (\<lambda>display. 0 \<le> index display \<and> index display \<le> 65535) (displays message))"

text \<open>A text that the encoding of a display keeps: any text as UTF-16, and a text of
  7-bit characters as ASCII.\<close>

definition ascii_text :: "js_string \<Rightarrow> bool" where
  "ascii_text s = list_all (\<lambda>c. c \<le> 0x7F) s"

definition text_ok :: "bool \<Rightarrow> js_string \<Rightarrow> bool" where
  "text_ok unicode' s = (unicode' \<or> ascii_text s)"

definition display_ok :: "bool \<Rightarrow> TslV50DisplayMessage \<Rightarrow> bool" where
  "display_ok unicode' display =
     (0 \<le> index display \<and> index display \<le> 65535 \<and>
      length (textBytesOf unicode' (msgText display)) \<le> 65535 \<and>
      text_ok unicode' (msgText display))"

text \<open>Valid V5.0 messages: encodable, with the packet byte count of the data model
  (the encoded length minus 2), a minor version that fits its byte, texts that the
  selected encoding keeps, and no display when the screen-control flag is set.\<close>

definition valid_V50 :: "TslV50Message \<Rightarrow> bool" where
  "valid_V50 message =
     (v50_encodable message \<and>
      packetByteCount message = int (dataSizeOf message) \<and>
      0 \<le> minorVersion message \<and> minorVersion message \<le> 255 \<and>
      list_all (\<lambda>display. text_ok (unicode (flags message)) (msgText display))
        (displays message) \<and>
      (screenControl (flags message) \<longrightarrow> displays message = []))"

text \<open>V5.0 messages for the examples: one display with the text \<^verbatim>\<open>AB\<close> and the packet
  byte count 0 that \<^verbatim>\<open>createSimpleV50\<close> passes; and one display with a text of \<open>n\<close>
  letters \<^verbatim>\<open>A\<close>.\<close>

definition example_V50 :: TslV50Message where
  "example_V50 =
     \<lparr>packetByteCount = 0, minorVersion = 0,
      flags = \<lparr>unicode = False, screenControl = False\<rparr>, screen = 0,
      displays = [\<lparr>leftTally = RED, textTally = OFF, rightTally = GREEN, index = 1,
                   displayBrightness = FULL, msgText = [0x41, 0x42]\<rparr>]\<rparr>"

definition long_V50 :: "nat \<Rightarrow> TslV50Message" where
  "long_V50 n =
     \<lparr>packetByteCount = int n + 10, minorVersion = 0,
      flags = \<lparr>unicode = False, screenControl = False\<rparr>, screen = 0,
      displays = [\<lparr>leftTally = OFF, textTally = OFF, rightTally = OFF, index = 1,
                   displayBrightness = FULL, msgText = replicate n 0x41\<rparr>]\<rparr>"

text \<open>For the receive path: a run of V3.1 packets none of whose remainders
  \<^verbatim>\<open>detectVersion\<close> takes for a V5.0 packet; the packet that \<^verbatim>\<open>parsePacket\<close> makes of an
  encoded V3.1 message; a chunk of whole V3.1 packets of valid messages, with no
  \<open>DLE\<close>, \<open>STX\<close> pair in it; and the V3.1 message of the examples.\<close>

fun no_V5_clash :: "TslV31Message list \<Rightarrow> bool" where
  "no_V5_clash [] = True"
| "no_V5_clash (m # ms) =
     (detectVersion (concat (map buildV31 (m # ms))) \<noteq> Inr (Some V5_0) \<and> no_V5_clash ms)"

definition packet_V31 :: "string \<Rightarrow> TslV31Message \<Rightarrow> ParsedPacket" where
  "packet_V31 src m =
     \<lparr>rawData = buildV31 m,
      parsed = Some (MsgV31 (m\<lparr>displayText := take 16 (padEnd (displayText m) 16)\<rparr>)),
      error = None, source = src\<rparr>"

definition chunk_ok :: "TslV31Message list \<Rightarrow> bool" where
  "chunk_ok ms =
     (list_all valid_V31 ms \<and> no_V5_clash ms \<and>
      unwrapFromTcp (concat (map buildV31 ms)) = None)"

definition example_V31 :: TslV31Message where
  "example_V31 =
     \<lparr>address = 1, tally1 = True, tally2 = False, tally3 = False, tally4 = False,
      brightness = FULL, displayText = [0x43, 0x41, 0x4D, 0x20, 0x31]\<rparr>"


section \<open>Facts on bytes and code units\<close>

lemma unat_byte_lt: "unat (b :: byte) < 256"
  using unsigned_less [of b, where 'a = nat] by simp

lemma mod128_byte: "n < 256 \<Longrightarrow> n mod 128 = (if n < 128 then n else n - (128 :: nat))"
  by (simp add: mod_if)

lemma and7F: "unat ((b :: byte) AND 0x7F) = (if unat b < 128 then unat b else unat b - 128)"
proof -
  have "unat (take_bit 7 b) = take_bit 7 (unat b)"
    by (rule unsigned_take_bit_eq)
  also have "\<dots> = unat b mod 128"
    by (simp add: take_bit_eq_mod)
  finally have "unat (take_bit 7 b) = (if unat b < 128 then unat b else unat b - 128)"
    using unat_byte_lt [of b] by (simp only: mod128_byte)
  moreover have "take_bit 7 b = b AND 0x7F"
    by (simp add: take_bit_eq_mask mask_eq_exp_minus_1)
  ultimately show ?thesis by simp
qed

lemma unat_ucast_byte: "unat (ucast (b :: byte) :: 16 word) = unat b"
  using unat_byte_lt [of b] by (simp add: unsigned_ucast_eq take_bit_eq_mod)

lemma unat_ucast_low: "unat (ucast (c :: 16 word) :: byte) = unat c mod 256"
  by (simp add: unsigned_ucast_eq take_bit_eq_mod)

lemma unat_word_of_int_byte: "unat (word_of_int x :: byte) = nat (x mod 256)"
  by (simp add: unsigned_of_int take_bit_eq_mod)

lemma unat_of_nat_byte: "unat (of_nat n :: byte) = n mod 256"
  by (simp add: unat_of_nat)

lemma utf16_pair:
  "(ucast (ucast (c :: 16 word) :: byte) OR push_bit 8 (ucast (ucast (drop_bit 8 c) :: byte))) = c"
  by (rule bit_word_eqI) (auto simp: bit_simps)

section \<open>Version detection\<close>

lemma readUInt16LE_in_range:
  "offset + 2 \<le> length buffer \<Longrightarrow>
   readUInt16LE buffer offset = Inr (unat (buffer ! offset) + 256 * unat (buffer ! (offset + 1)))"
  by (simp add: readUInt16LE_def)

text \<open>
  Claim C2. \<^verbatim>\<open>detectVersion\<close> answers V5.0 exactly for the buffers of at least 6 bytes
  whose first 16 bits, read little-endian, are the length minus 2; and a buffer with
  that property is V5.0 also when its first byte is a V3.1/V4.0 header
  (\<open>0x80\<close> to \<open>0xFE\<close>): the byte-count test is made first.
\<close>

theorem detectVersion_V5_0_iff:
  "((detectVersion buffer = Inr (Some V5_0)) =
      (6 \<le> length buffer \<and> readUInt16LE buffer 0 = Inr (length buffer - 2))) \<and>
   (6 \<le> length buffer \<and> readUInt16LE buffer 0 = Inr (length buffer - 2) \<and>
    0x80 \<le> unat (buffer ! 0) \<and> unat (buffer ! 0) \<le> 0xFE
      \<longrightarrow> detectVersion buffer = Inr (Some V5_0))"
  by (auto simp: detectVersion_def detectHeader_def readUInt16LE_def Let_def
      split: if_splits sum.splits)

text \<open>A buffer of 130 bytes that starts with the header byte \<open>0x80\<close>: its first 16 bits
  are 128, the length minus 2.\<close>

theorem detectVersion_V5_0_iff_witness:
  "6 \<le> length (0x80 # 0x00 # replicate 128 (0 :: byte)) \<and>
   readUInt16LE (0x80 # 0x00 # replicate 128 0) 0
     = Inr (length (0x80 # 0x00 # replicate 128 (0 :: byte)) - 2) \<and>
   0x80 \<le> unat ((0x80 # 0x00 # replicate 128 (0 :: byte)) ! 0) \<and>
   unat ((0x80 # 0x00 # replicate 128 (0 :: byte)) ! 0) \<le> 0xFE \<and>
   detectVersion (0x80 # 0x00 # replicate 128 0) = Inr (Some V5_0)"
  using detectVersion_V5_0_iff [of "0x80 # 0x00 # replicate 128 0"]
  by (simp add: readUInt16LE_def)

text \<open>
  Claim C8, as stated: \<^verbatim>\<open>detectVersion\<close> on the six bytes \<open>06 00 00 00 00 00\<close> is V5.0.
  It is not: the first 16 bits are 6 and the length minus 2 is 4, and \<open>0x06\<close> is no
  V3.1/V4.0 header either.
\<close>

theorem detectVersion_example_counterexample:
  "detectVersion [0x06, 0x00, 0x00, 0x00, 0x00, 0x00] \<noteq> Inr (Some V5_0)"
  by (simp add: detectVersion_def detectHeader_def readUInt16LE_def)

text \<open>
  Claim C8, amended: the six bytes \<open>04 00 00 00 00 00\<close>, whose first 16 bits are the
  length minus 2, are V5.0; on \<open>06 00 00 00 00 00\<close> no version is detected.
\<close>

theorem detectVersion_example:
  "detectVersion [0x04, 0x00, 0x00, 0x00, 0x00, 0x00] = Inr (Some V5_0) \<and>
   detectVersion [0x06, 0x00, 0x00, 0x00, 0x00, 0x00] = Inr None"
  by (simp add: detectVersion_def detectHeader_def readUInt16LE_def)

section \<open>V3.1 display text\<close>

lemma parseV31_text_nth:
  assumes "18 \<le> length buffer" "i < 16"
  shows "replaceControl (toString_ascii (buf_slice buffer 2 18)) ! i =
         (if (ucast (buffer ! (i + 2) AND 0x7F) :: 16 word) \<le> 0x1F \<or>
             (ucast (buffer ! (i + 2) AND 0x7F) :: 16 word) = 0x7F
          then 0x20 else ucast (buffer ! (i + 2) AND 0x7F))"
  using assms
  by (simp add: replaceControl_def toString_ascii_def buf_slice_def add.commute)

lemma ascii_char_cases:
  fixes b :: byte
  shows "(b \<le> 0x1F \<or> b = 0x7F \<or> (0x80 \<le> b \<and> b \<le> 0x9F) \<or> b = 0xFF \<longrightarrow>
           (if (ucast (b AND 0x7F) :: 16 word) \<le> 0x1F \<or> (ucast (b AND 0x7F) :: 16 word) = 0x7F
            then 0x20 else ucast (b AND 0x7F)) = (0x20 :: 16 word)) \<and>
         (0x20 \<le> b \<and> b \<le> 0x7E \<longrightarrow>
           (if (ucast (b AND 0x7F) :: 16 word) \<le> 0x1F \<or> (ucast (b AND 0x7F) :: 16 word) = 0x7F
            then 0x20 else ucast (b AND 0x7F)) = (ucast b :: 16 word)) \<and>
         (0xA0 \<le> b \<and> b \<le> 0xFE \<longrightarrow>
           (if (ucast (b AND 0x7F) :: 16 word) \<le> 0x1F \<or> (ucast (b AND 0x7F) :: 16 word) = 0x7F
            then 0x20 else ucast (b AND 0x7F)) = (ucast (b - 0x80) :: 16 word))"
  using unat_byte_lt [of b]
  by (auto simp: word_le_nat_alt word_unat_eq_iff and7F unat_ucast_byte unat_sub)

text \<open>
  Claim C7, as stated: every character of the decoded V3.1 text whose source byte is
  outside \<open>0x20\<close> to \<open>0x7E\<close> is a space. The source byte \<open>0xC1\<close> is outside that range
  and is decoded as \<open>0x41\<close>, the letter A: the \<^verbatim>\<open>'ascii'\<close> decoding clears the highest
  bit, and the replacement that follows looks for control codes only.
\<close>

theorem parseV31_displayText_counterexample:
  "18 \<le> length ([0x80, 0x00, 0xC1, 0x20, 0x20, 0x20, 0x20, 0x20, 0x20, 0x20,
      0x20, 0x20, 0x20, 0x20, 0x20, 0x20, 0x20, 0x20 :: byte]) \<and>
   \<not> (0x20 \<le> (0xC1 :: byte) \<and> (0xC1 :: byte) \<le> 0x7E) \<and>
   map_option (\<lambda>m. displayText m ! 0)
     (parseV31 [0x80, 0x00, 0xC1, 0x20, 0x20, 0x20, 0x20, 0x20, 0x20, 0x20,
      0x20, 0x20, 0x20, 0x20, 0x20, 0x20, 0x20, 0x20]) = Some 0x41 \<and>
   (0x41 :: 16 word) \<noteq> 0x20"
  by (simp add: parseV31_def Let_def replaceControl_def toString_ascii_def buf_slice_def)

text \<open>
  Claim C7, amended: for a buffer of at least 18 bytes with a header in \<open>0x80\<close> to
  \<open>0xFE\<close>, \<^verbatim>\<open>parseV31\<close> returns a message with 16 characters, and the character at
  position \<open>i\<close> comes from byte \<open>i + 2\<close> with its highest bit cleared, a control code
  (\<open>0x00\<close> to \<open>0x1F\<close>, \<open>0x7F\<close>) being replaced by a space. So the bytes \<open>0x00\<close> to \<open>0x1F\<close>,
  \<open>0x7F\<close>, \<open>0x80\<close> to \<open>0x9F\<close> and \<open>0xFF\<close> give a space, the bytes \<open>0x20\<close> to \<open>0x7E\<close> give
  themselves, and the bytes \<open>0xA0\<close> to \<open>0xFE\<close> give the printable character 128 below.
\<close>

theorem parseV31_displayText:
  assumes "18 \<le> length buffer" "0x80 \<le> unat (buffer ! 0)" "unat (buffer ! 0) \<le> 0xFE"
  shows "\<exists>m. parseV31 buffer = Some m \<and> length (displayText m) = 16 \<and>
           (\<forall>i<16.
              (buffer ! (i + 2) \<le> 0x1F \<or> buffer ! (i + 2) = 0x7F \<or>
               (0x80 \<le> buffer ! (i + 2) \<and> buffer ! (i + 2) \<le> 0x9F) \<or>
               buffer ! (i + 2) = 0xFF
                 \<longrightarrow> displayText m ! i = 0x20) \<and>
              (0x20 \<le> buffer ! (i + 2) \<and> buffer ! (i + 2) \<le> 0x7E
                 \<longrightarrow> displayText m ! i = ucast (buffer ! (i + 2))) \<and>
              (0xA0 \<le> buffer ! (i + 2) \<and> buffer ! (i + 2) \<le> 0xFE
                 \<longrightarrow> displayText m ! i = ucast (buffer ! (i + 2) - 0x80)))"
proof -
  let ?t = "replaceControl (toString_ascii (buf_slice buffer 2 18))"
  have len: "length ?t = 16"
    using assms(1) by (simp add: replaceControl_def toString_ascii_def buf_slice_def)
  have "\<exists>m. parseV31 buffer = Some m \<and> displayText m = ?t"
    using assms by (simp add: parseV31_def Let_def)
  then obtain m where m: "parseV31 buffer = Some m" "displayText m = ?t"
    by blast
  have "(buffer ! (i + 2) \<le> 0x1F \<or> buffer ! (i + 2) = 0x7F \<or>
               (0x80 \<le> buffer ! (i + 2) \<and> buffer ! (i + 2) \<le> 0x9F) \<or>
               buffer ! (i + 2) = 0xFF
                 \<longrightarrow> displayText m ! i = 0x20) \<and>
              (0x20 \<le> buffer ! (i + 2) \<and> buffer ! (i + 2) \<le> 0x7E
                 \<longrightarrow> displayText m ! i = ucast (buffer ! (i + 2))) \<and>
              (0xA0 \<le> buffer ! (i + 2) \<and> buffer ! (i + 2) \<le> 0xFE
                 \<longrightarrow> displayText m ! i = ucast (buffer ! (i + 2) - 0x80))"
    if i: "i < 16" for i
    unfolding m(2) parseV31_text_nth [OF assms(1) i]
    by (rule ascii_char_cases)
  then have chars: "\<forall>i<16.
              (buffer ! (i + 2) \<le> 0x1F \<or> buffer ! (i + 2) = 0x7F \<or>
               (0x80 \<le> buffer ! (i + 2) \<and> buffer ! (i + 2) \<le> 0x9F) \<or>
               buffer ! (i + 2) = 0xFF
                 \<longrightarrow> displayText m ! i = 0x20) \<and>
              (0x20 \<le> buffer ! (i + 2) \<and> buffer ! (i + 2) \<le> 0x7E
                 \<longrightarrow> displayText m ! i = ucast (buffer ! (i + 2))) \<and>
              (0xA0 \<le> buffer ! (i + 2) \<and> buffer ! (i + 2) \<le> 0xFE
                 \<longrightarrow> displayText m ! i = ucast (buffer ! (i + 2) - 0x80))"
    by (intro allI impI)
  have "length (displayText m) = 16"
    using len m(2) by simp
  with m(1) chars show ?thesis
    by (intro exI [of _ m] conjI)
qed

theorem parseV31_displayText_witness:
  "18 \<le> length ([0x80, 0x00, 0xC1, 0x20, 0x20, 0x20, 0x20, 0x20, 0x20, 0x20,
      0x20, 0x20, 0x20, 0x20, 0x20, 0x20, 0x20, 0x20 :: byte]) \<and>
   0x80 \<le> unat (0x80 :: byte) \<and> unat (0x80 :: byte) \<le> 0xFE \<and>
   (\<exists>m. parseV31 [0x80, 0x00, 0xC1, 0x20, 0x20, 0x20, 0x20, 0x20, 0x20, 0x20,
      0x20, 0x20, 0x20, 0x20, 0x20, 0x20, 0x20, 0x20] = Some m \<and>
      displayText m ! 0 = ucast ((0xC1 :: byte) - 0x80) \<and> displayText m ! 1 = 0x20)"
  using parseV31_displayText [of "[0x80, 0x00, 0xC1, 0x20, 0x20, 0x20, 0x20, 0x20, 0x20, 0x20,
      0x20, 0x20, 0x20, 0x20, 0x20, 0x20, 0x20, 0x20]"]
  by (simp add: parseV31_def Let_def replaceControl_def toString_ascii_def buf_slice_def)

section \<open>The V5.0 display walk\<close>

lemma walkStep_no_throw: "walkStep buffer u offset \<noteq> Inl e"
  by (auto simp: walkStep_def readUInt16LE_def Let_def split: if_splits sum.splits)

lemma walkStep_exit_iff:
  "(walkStep buffer u offset = Inr None) =
     (length buffer - offset < 6 \<or>
      (\<exists>control. readUInt16LE buffer (offset + 2) = Inr control \<and> control AND 0x8000 \<noteq> 0) \<or>
      (\<exists>textLength. readUInt16LE buffer (offset + 4) = Inr textLength \<and>
         length buffer - (offset + 6) < textLength))"
  by (auto simp: walkStep_def readUInt16LE_def Let_def split: if_splits sum.splits)

lemma parseDisplays_returns:
  "\<exists>ds. parseDisplays buffer u offset acc = Inr ds \<and>
        length ds \<le> length acc + (length buffer - offset) div 6"
proof (induction buffer u offset acc rule: parseDisplays.induct)
  case (1 buffer u offset acc)
  show ?case
  proof (cases "walkStep buffer u offset")
    case (Inl e)
    then show ?thesis by (simp add: walkStep_no_throw)
  next
    case (Inr r)
    show ?thesis
    proof (cases r)
      case None
      with Inr show ?thesis
        by (subst parseDisplays.simps) simp
    next
      case (Some p)
      obtain d offset' where p: "p = (d, offset')" by (cases p)
      from Inr Some p have step: "walkStep buffer u offset = Inr (Some (d, offset'))"
        by simp
      from walkStep_advance [OF step]
      have adv: "offset + 6 \<le> offset'" "offset' \<le> length buffer" by simp_all
      from "1.IH" [OF Inr Some p [symmetric]]
      obtain ds where ds: "parseDisplays buffer u offset' (acc @ [d]) = Inr ds"
        "length ds \<le> length (acc @ [d]) + (length buffer - offset') div 6"
        by blast
      have "(length buffer - offset') div 6 + 1 \<le> (length buffer - offset) div 6"
      proof -
        have "length buffer - offset' + 6 \<le> length buffer - offset"
          using adv by arith
        then have "(length buffer - offset' + 6) div 6 \<le> (length buffer - offset) div 6"
          by (rule div_le_mono)
        then show ?thesis by simp
      qed
      with ds have "length ds \<le> length acc + (length buffer - offset) div 6"
        by simp
      moreover have "parseDisplays buffer u offset acc = Inr ds"
        using step ds(1) by (subst parseDisplays.simps) simp
      ultimately show ?thesis by blast
    qed
  qed
qed

lemma parseV50_returns: "\<exists>r. parseV50 buffer = Inr r"
proof -
  obtain ds where "parseDisplays buffer (unat (buffer ! 3) AND 0x01 \<noteq> 0) 6 [] = Inr ds"
    using parseDisplays_returns by blast
  then show ?thesis
    by (auto simp: parseV50_def readUInt16LE_def Let_def split: if_splits sum.splits)
qed

text \<open>
  Claim C10. One pass of the display loop of \<^verbatim>\<open>parseV50\<close> either ends the loop or
  goes on at an offset at least 6 bytes further and still inside the buffer; it ends
  the loop exactly when fewer than 6 bytes remain, the control-data bit is set, or the
  declared text length exceeds the bytes that remain. So the loop returns on every
  buffer, from every offset, after at most one pass for every 6 bytes that remain,
  and \<^verbatim>\<open>parseV50\<close> returns (a message or \<^verbatim>\<open>null\<close>) on every buffer and raises nothing.
\<close>

theorem parseV50_total:
  "(walkStep buffer u offset = Inr None \<or>
    (\<exists>d offset'. walkStep buffer u offset = Inr (Some (d, offset')) \<and>
       offset + 6 \<le> offset' \<and> offset' \<le> length buffer)) \<and>
   ((walkStep buffer u offset = Inr None) =
     (length buffer - offset < 6 \<or>
      (\<exists>control. readUInt16LE buffer (offset + 2) = Inr control \<and> control AND 0x8000 \<noteq> 0) \<or>
      (\<exists>textLength. readUInt16LE buffer (offset + 4) = Inr textLength \<and>
         length buffer - (offset + 6) < textLength))) \<and>
   (\<exists>ds. parseDisplays buffer u offset acc = Inr ds \<and>
         length ds \<le> length acc + (length buffer - offset) div 6) \<and>
   (\<exists>r. parseV50 buffer = Inr r)"
proof (intro conjI)
  show "walkStep buffer u offset = Inr None \<or>
    (\<exists>d offset'. walkStep buffer u offset = Inr (Some (d, offset')) \<and>
       offset + 6 \<le> offset' \<and> offset' \<le> length buffer)"
  proof (cases "walkStep buffer u offset")
    case (Inl e)
    then show ?thesis by (simp add: walkStep_no_throw)
  next
    case (Inr r)
    then show ?thesis
      by (cases r) (auto dest: walkStep_advance)
  qed
qed (rule walkStep_exit_iff parseDisplays_returns parseV50_returns)+

theorem parseV50_total_witness:
  "walkStep [0x0A, 0x00, 0x00, 0x00, 0x00, 0x00, 0x01, 0x00, 0x00, 0x00, 0x00, 0x00] False 6
     = Inr (Some (\<lparr>leftTally = OFF, textTally = OFF, rightTally = OFF, index = 1,
                    displayBrightness = BrightOFF, msgText = []\<rparr>, 12)) \<and>
   (\<exists>r. parseV50 [0x0A, 0x00, 0x00, 0x00, 0x00, 0x00, 0x01, 0x00, 0x00, 0x00, 0x00, 0x00]
      = Inr r)"
  using parseV50_total
    [of "[0x0A, 0x00, 0x00, 0x00, 0x00, 0x00, 0x01, 0x00, 0x00, 0x00, 0x00, 0x00]" False 6 "[]"]
  by (simp add: walkStep_def readUInt16LE_def Let_def as_TallyState_def as_Brightness_def
      toString_ascii_def buf_slice_def)

section \<open>V3.1 and V4.0 encoding\<close>

lemma copyInto_eq:
  "offset + length src \<le> length target \<Longrightarrow>
   copyInto target offset src = take offset target @ src @ drop (offset + length src) target"
proof (induction src arbitrary: target offset)
  case Nil
  show ?case by simp
next
  case (Cons b bs)
  have "copyInto target offset (b # bs) = copyInto (target[offset := b]) (Suc offset) bs"
    by simp
  also have "\<dots> = take (Suc offset) (target[offset := b]) @ bs
                  @ drop (Suc offset + length bs) (target[offset := b])"
    using Cons.prems by (intro Cons.IH) simp
  also have "take (Suc offset) (target[offset := b]) = take offset target @ [b]"
    using Cons.prems by (simp add: take_Suc_conv_app_nth)
  finally show ?case by simp
qed

lemma foldl_sum_upt:
  "n \<le> length buffer \<Longrightarrow>
   foldl (\<lambda>sum i. sum + uint (buffer ! i)) a [0..<n] = a + sum_list (map uint (take n buffer))"
proof (induction n)
  case 0
  show ?case by simp
next
  case (Suc n)
  then show ?case by (simp add: take_Suc_conv_app_nth)
qed

lemma sum18_take: "18 \<le> length buffer \<Longrightarrow> sum18 buffer = sum_list (map uint (take 18 buffer))"
  using foldl_sum_upt [of 18 buffer 0] by (simp add: sum18_def)

lemma sum_list_uint_update:
  "i < length xs \<Longrightarrow>
   sum_list (map uint (xs[i := b])) = sum_list (map uint xs) - uint (xs ! i) + uint b"
proof (induction xs arbitrary: i)
  case Nil
  then show ?case by simp
next
  case (Cons x xs)
  then show ?case by (cases i) simp_all
qed

lemma sum18_update:
  assumes "18 \<le> length buffer" "i < 18"
  shows "sum18 (buffer[i := b]) = sum18 buffer - uint (buffer ! i) + uint b"
proof -
  have "take 18 (buffer[i := b]) = (take 18 buffer)[i := b]"
    using assms by (simp add: take_update_swap)
  then show ?thesis
    using assms sum_list_uint_update [of i "take 18 buffer" b] by (simp add: sum18_take)
qed

lemma sum18_update_beyond:
  assumes "18 \<le> length buffer" "18 \<le> i"
  shows "sum18 (buffer[i := b]) = sum18 buffer"
  using assms by (simp add: sum18_take)

lemma sum18_append:
  assumes "18 \<le> length buffer"
  shows "sum18 (buffer @ rest) = sum18 buffer"
  using assms by (simp add: sum18_take)

lemma expectedChecksum_mod: "expectedChecksum buffer = (- sum18 buffer) mod 128"
proof -
  have "NOT (sum18 buffer) + 1 = - sum18 buffer"
    by (simp add: not_int_def)
  moreover have "x AND 0x7F = x mod 128" for x :: int
    using take_bit_eq_mask [of 7 x] by (simp add: take_bit_eq_mod mask_eq_exp_minus_1)
  ultimately show ?thesis by (simp add: expectedChecksum_def)
qed

lemma control31:
  fixes t1 t2 t3 t4 :: bool and b :: Brightness
  defines "c \<equiv> (let control = (0 :: nat);
          control = (if t1 then control OR 0x01 else control);
          control = (if t2 then control OR 0x02 else control);
          control = (if t3 then control OR 0x04 else control);
          control = (if t4 then control OR 0x08 else control);
          control = control OR push_bit 4 (Brightness_val b AND 0x03) in control)"
  shows "c < 64 \<and> (c AND 0x01 \<noteq> 0) = t1 \<and> (c AND 0x02 \<noteq> 0) = t2 \<and> (c AND 0x04 \<noteq> 0) = t3 \<and>
         (c AND 0x08 \<noteq> 0) = t4 \<and> as_Brightness (drop_bit 4 c AND 0x03) = b"
  unfolding c_def
  by (cases t1; cases t2; cases t3; cases t4; cases b; simp add: as_Brightness_def)

lemma tallyByte:
  "buildTallyByte d < 64 \<and> parseTallyByte (buildTallyByte d) = d"
  by (cases d; cases "leftTally d"; cases "textTally d"; cases "rightTally d";
      simp add: buildTallyByte_def parseTallyByte_def as_TallyState_def)

lemma length_text16: "length (text16 s) = 16"
  by (simp add: text16_def padEnd_def)

lemma take2_update:
  "2 \<le> length xs \<Longrightarrow> take 2 (xs[0 := h, 1 := c]) = [h, c]"
  by (cases xs; cases "tl xs"; simp add: numeral_2_eq_2)

lemma buildV31_eq:
  "buildV31 message =
     word_of_int (address message + 0x80) # of_nat (v31_control message)
       # from_ascii (text16 (displayText message))"
proof -
  let ?b = "(alloc 18)[0 := word_of_int (address message + 0x80), 1 := of_nat (v31_control message)]"
  let ?t = "from_ascii (text16 (displayText message))"
  have lt: "length ?t = 16"
    by (simp add: from_ascii_def length_text16)
  have "buildV31 message = copyInto ?b 2 (take 16 ?t)"
    by (simp add: buildV31_def v31_control_def text16_def Let_def)
  also have "\<dots> = copyInto ?b 2 ?t"
    using lt by simp
  also have "\<dots> = take 2 ?b @ ?t @ drop (2 + length ?t) ?b"
    by (rule copyInto_eq) (simp add: lt alloc_def)
  also have "take 2 ?b = [word_of_int (address message + 0x80), of_nat (v31_control message)]"
    by (rule take2_update) (simp add: alloc_def)
  finally show ?thesis
    by (simp add: lt alloc_def)
qed

lemma v31_control_props:
  "v31_control m < 64 \<and> (v31_control m AND 0x01 \<noteq> 0) = tally1 m \<and>
   (v31_control m AND 0x02 \<noteq> 0) = tally2 m \<and> (v31_control m AND 0x04 \<noteq> 0) = tally3 m \<and>
   (v31_control m AND 0x08 \<noteq> 0) = tally4 m \<and>
   as_Brightness (drop_bit 4 (v31_control m) AND 0x03) = brightness m"
  unfolding v31_control_def by (rule control31)

lemma length_buildV31: "length (buildV31 m) = 18"
  by (simp add: buildV31_eq from_ascii_def length_text16)

lemma printable_text16: "printable s \<Longrightarrow> printable (text16 s)"
  by (auto simp: printable_def text16_def padEnd_def list_all_iff dest: in_set_takeD)

lemma ascii_roundtrip_char:
  fixes c :: "16 word"
  assumes "0x20 \<le> c" "c \<le> 0x7E"
  shows "(ucast ((ucast c :: byte) AND 0x7F) :: 16 word) = c"
    and "\<not> ((ucast ((ucast c :: byte) AND 0x7F) :: 16 word) \<le> 0x1F \<or>
             (ucast ((ucast c :: byte) AND 0x7F) :: 16 word) = 0x7F)"
  using assms
  by (auto simp: word_le_nat_alt word_unat_eq_iff and7F unat_ucast_byte unat_ucast_low)

lemma ascii_roundtrip_printable:
  assumes "printable s"
  shows "replaceControl (toString_ascii (from_ascii s)) = s"
proof -
  have "(if (ucast ((ucast c :: byte) AND 0x7F) :: 16 word) \<le> 0x1F \<or>
            (ucast ((ucast c :: byte) AND 0x7F) :: 16 word) = 0x7F
         then 0x20 else ucast ((ucast c :: byte) AND 0x7F)) = c" if "c \<in> set s" for c
    using that assms ascii_roundtrip_char [of c]
    by (simp only: printable_def list_all_iff) simp
  then have "map (\<lambda>c. if (ucast ((ucast c :: byte) AND 0x7F) :: 16 word) \<le> 0x1F \<or>
            (ucast ((ucast c :: byte) AND 0x7F) :: 16 word) = 0x7F
         then 0x20 else ucast ((ucast c :: byte) AND 0x7F)) s = s"
    by (intro map_idI)
  then show ?thesis
    by (simp add: replaceControl_def toString_ascii_def from_ascii_def comp_def)
qed

lemma header_byte:
  assumes "0 \<le> a" "a \<le> 126"
  shows "unat (word_of_int a + 0x80 :: byte) = nat (a + 128)"
proof -
  have "unat (word_of_int (a + 0x80) :: byte) = nat (a + 128)"
    unfolding unat_word_of_int_byte using assms by simp
  then show ?thesis by simp
qed

lemma control_byte: "unat (of_nat (v31_control m) :: byte) = v31_control m"
  using v31_control_props [of m] by (simp add: unat_of_nat_byte)

lemma buf_slice_buildV31:
  "buf_slice (buildV31 m @ rest) 2 18 = from_ascii (text16 (displayText m))"
  by (simp add: buildV31_eq buf_slice_def from_ascii_def length_text16)

lemma parseV31_buildV31:
  assumes "valid_V31 m"
  shows "parseV31 (buildV31 m @ rest) = Some (m\<lparr>displayText := text16 (displayText m)\<rparr>)"
proof -
  have p: "printable (text16 (displayText m))"
    using assms by (simp add: valid_V31_def printable_text16)
  have h: "unat ((buildV31 m @ rest) ! 0) = nat (address m + 128)"
    using assms by (simp add: buildV31_eq valid_V31_def header_byte)
  have c: "unat ((buildV31 m @ rest) ! Suc 0) = v31_control m"
    by (simp add: buildV31_eq control_byte)
  have a: "int (nat (address m + 128)) - 128 = address m"
    using assms by (simp add: valid_V31_def)
  have r: "0x80 \<le> nat (address m + 128)" "nat (address m + 128) \<le> 0xFE"
    using assms unfolding valid_V31_def by arith+
  show ?thesis
    using r v31_control_props [of m]
    by (simp add: parseV31_def Let_def h c a buf_slice_buildV31 ascii_roundtrip_printable [OF p]
        length_buildV31)
qed

lemma detectVersion_buildV31:
  assumes "valid_V31 m"
  shows "detectVersion (buildV31 m) = Inr (Some V3_1)"
proof -
  have h: "unat (buildV31 m ! 0) = nat (address m + 128)"
    using assms by (simp add: buildV31_eq valid_V31_def header_byte)
  have r: "0x80 \<le> nat (address m + 128)" "nat (address m + 128) \<le> 0xFE"
    using assms unfolding valid_V31_def by arith+
  show ?thesis
    using r by (simp add: detectVersion_def detectHeader_def readUInt16LE_def Let_def h
        length_buildV31)
qed

lemma parse_buildV31:
  assumes "valid_V31 m"
  shows "parse (buildV31 m) = Inr (Some (MsgV31 (m\<lparr>displayText := text16 (displayText m)\<rparr>)))"
  using parseV31_buildV31 [OF assms, of "[]"]
  by (simp add: parse_def detectVersion_buildV31 [OF assms])

lemma expectedChecksum_range: "0 \<le> expectedChecksum buffer \<and> expectedChecksum buffer < 128"
  by (simp add: expectedChecksum_mod)

lemma uint_checksum_byte: "uint (word_of_int (expectedChecksum buffer) :: byte) = expectedChecksum buffer"
  using expectedChecksum_range [of buffer] by (simp add: uint_word_of_int take_bit_eq_mod)

lemma expectedChecksum_append:
  "18 \<le> length buffer \<Longrightarrow> expectedChecksum (buffer @ rest) = expectedChecksum buffer"
  by (simp add: expectedChecksum_def sum18_append)

lemma buildV40_eq:
  "buildV40 message =
     buildV31 (TslBaseMessage.truncate message) @
     [word_of_int (expectedChecksum (buildV31 (TslBaseMessage.truncate message))), 0x02,
      of_nat (buildTallyByte (leftDisplay message)),
      of_nat (buildTallyByte (rightDisplay message))]"
proof -
  let ?v = "buildV31 (TslBaseMessage.truncate message)"
  have "copyInto (alloc 22) 0 ?v = take 0 (alloc 22) @ ?v @ drop (0 + length ?v) (alloc 22)"
    by (rule copyInto_eq) (simp add: alloc_def length_buildV31)
  then have c: "copyInto (alloc 22) 0 ?v = ?v @ [0, 0, 0, 0]"
    by (simp add: alloc_def length_buildV31 numeral_eq_Suc)
  have e: "expectedChecksum (?v @ [0, 0, 0, 0]) = expectedChecksum ?v"
    by (rule expectedChecksum_append) (simp add: length_buildV31)
  show ?thesis
    by (simp add: buildV40_def Let_def c e list_update_append length_buildV31)
qed

lemma length_buildV40: "length (buildV40 m) = 22"
  by (simp add: buildV40_eq length_buildV31)

lemma tally_byte: "unat (of_nat (buildTallyByte d) :: byte) = buildTallyByte d"
  using tallyByte [of d] by (simp add: unat_of_nat_byte)

lemma buildV40_nth18:
  "uint (buildV40 m ! 18) = expectedChecksum (buildV40 m)"
proof -
  have "expectedChecksum (buildV40 m) = expectedChecksum (buildV31 (TslBaseMessage.truncate m))"
    unfolding buildV40_eq by (rule expectedChecksum_append) (simp add: length_buildV31)
  then show ?thesis
    by (simp add: buildV40_eq nth_append length_buildV31 uint_checksum_byte)
qed

lemma truncate_update:
  "TslBaseMessage.truncate (m :: TslV40Message)\<lparr>displayText := t\<rparr>
   = TslBaseMessage.truncate (m\<lparr>displayText := t\<rparr>)"
  by (simp add: TslBaseMessage.truncate_def)

lemma parseV40_buildV40:
  assumes "valid_V40 m"
  shows "parseV40 (buildV40 m) = Some (m\<lparr>displayText := text16 (displayText m)\<rparr>)"
proof -
  let ?v = "buildV31 (TslBaseMessage.truncate m)"
  let ?rest = "[word_of_int (expectedChecksum ?v), 0x02,
      of_nat (buildTallyByte (leftDisplay m)), of_nat (buildTallyByte (rightDisplay m)) :: byte]"
  have v: "valid_V31 (TslBaseMessage.truncate m)"
    using assms by (simp add: valid_V40_def)
  have p: "parseV31 (buildV40 m) = Some ((TslBaseMessage.truncate m)
             \<lparr>displayText := text16 (displayText (TslBaseMessage.truncate m))\<rparr>)"
    unfolding buildV40_eq by (rule parseV31_buildV31 [OF v])
  have n: "unat (buildV40 m ! 19) = 2" "unat (buildV40 m ! 20) = buildTallyByte (leftDisplay m)"
    "unat (buildV40 m ! 21) = buildTallyByte (rightDisplay m)"
    by (simp_all add: buildV40_eq nth_append length_buildV31 tally_byte)
  show ?thesis
    using tallyByte [of "leftDisplay m"] tallyByte [of "rightDisplay m"]
    by (simp add: parseV40_def Let_def p n length_buildV40 buildV40_nth18
        TslBaseMessage.truncate_def)
qed

lemma detectHeader_not_V5: "detectHeader buffer \<noteq> Some V5_0"
  by (simp add: detectHeader_def Let_def)

lemma detectVersion_header:
  assumes "0x80 \<le> unat (buffer ! 0)" "6 \<le> length buffer" "length buffer < 130"
  shows "detectVersion buffer = Inr (detectHeader buffer)"
  using assms by (auto simp: detectVersion_def readUInt16LE_def)

lemma detectVersion_buildV40:
  assumes "valid_V40 m"
  shows "detectVersion (buildV40 m) = Inr (Some V4_0)"
proof -
  have v: "valid_V31 (TslBaseMessage.truncate m)"
    using assms by (simp add: valid_V40_def)
  have h: "unat (buildV40 m ! 0) = nat (address (TslBaseMessage.truncate m) + 128)"
    using v by (simp add: buildV40_eq buildV31_eq valid_V31_def header_byte)
  have r: "0x80 \<le> nat (address (TslBaseMessage.truncate m) + 128)"
    "nat (address (TslBaseMessage.truncate m) + 128) \<le> 0xFE"
    using v unfolding valid_V31_def by arith+
  have "detectVersion (buildV40 m) = Inr (detectHeader (buildV40 m))"
    using r by (intro detectVersion_header) (simp_all add: h length_buildV40)
  then show ?thesis
    using r by (simp add: detectHeader_def Let_def h length_buildV40 buildV40_nth18)
qed

lemma parse_buildV40:
  assumes "valid_V40 m"
  shows "parse (buildV40 m) = Inr (Some (MsgV40 (m\<lparr>displayText := text16 (displayText m)\<rparr>)))"
  by (simp add: parse_def detectVersion_buildV40 [OF assms] parseV40_buildV40 [OF assms])

section \<open>The V4.0 checksum\<close>

lemma checksum_preserved_iff:
  fixes s old new :: int
  shows "((- (s - old + new)) mod 128 = (- s) mod 128) = (new mod 128 = old mod 128)"
proof -
  have "((- (s - old + new)) mod 128 = (- s) mod 128) = (128 dvd (old - new))"
    by (simp add: mod_eq_dvd_iff)
  also have "\<dots> = (128 dvd (new - old))"
    by (rule dvd_diff_commute)
  also have "\<dots> = (new mod 128 = old mod 128)"
    by (simp add: mod_eq_dvd_iff)
  finally show ?thesis .
qed

lemma buildV40_example:
  "buildV40 example_V40 =
     [0x81, 0x31, 0x43, 0x41, 0x4D, 0x20, 0x31, 0x20, 0x20, 0x20, 0x20, 0x20, 0x20, 0x20, 0x20,
      0x20, 0x20, 0x20, 0x4C, 0x02, 0x1B, 0x01]"
  by code_simp

text \<open>
  Claim C3, as stated: after a change of one of the bytes 0 to 17 of a V4.0 buffer
  that does not preserve the checksum, decoding fails. The byte 2 of the example
  buffer is changed from \<open>0x43\<close> to \<open>0x44\<close>; the checksum no longer matches, and the
  auto-detecting \<^verbatim>\<open>parse\<close> returns a V3.1 message: \<^verbatim>\<open>detectVersion\<close> answers V3.1
  for a header in range whose checksum does not match.
\<close>

theorem buildV40_mutation_counterexample:
  "expectedChecksum ((buildV40 example_V40)[2 := 0x44])
     \<noteq> uint ((buildV40 example_V40)[2 := 0x44] ! 18) \<and>
   parse ((buildV40 example_V40)[2 := 0x44]) =
     Inr (Some (MsgV31 \<lparr>address = 1, tally1 = True, tally2 = False, tally3 = False,
       tally4 = False, brightness = FULL,
       displayText = [0x44, 0x41, 0x4D, 0x20, 0x31, 0x20, 0x20, 0x20, 0x20, 0x20, 0x20, 0x20,
                      0x20, 0x20, 0x20, 0x20]\<rparr>))"
  by (simp add: buildV40_example expectedChecksum_def sum18_take parse_def detectVersion_def
      detectHeader_def readUInt16LE_def parseV31_def Let_def as_Brightness_def
      replaceControl_def toString_ascii_def buf_slice_def)

text \<open>
  Claim C3, amended: for a buffer built by \<^verbatim>\<open>buildV40\<close> in which one of the bytes 0 to
  17 is replaced, the checksum over the bytes 0 to 17 still equals byte 18 exactly
  when the new byte agrees with the old one modulo 128. When it does not,
  \<^verbatim>\<open>parseV40\<close> fails, \<^verbatim>\<open>detectVersion\<close> does not answer V4.0, and \<^verbatim>\<open>parse\<close> returns no V4.0
  message; if the first byte is still a header (\<open>0x80\<close> to \<open>0xFE\<close>), \<^verbatim>\<open>parse\<close> returns a
  V3.1 message.
\<close>

theorem buildV40_mutation:
  assumes "i < 18" and "buffer' = (buildV40 message)[i := b]"
  shows "((expectedChecksum buffer' = uint (buffer' ! 18)) =
            (uint b mod 128 = uint (buildV40 message ! i) mod 128)) \<and>
         (expectedChecksum buffer' \<noteq> uint (buffer' ! 18) \<longrightarrow>
            parseV40 buffer' = None \<and>
            detectVersion buffer' \<noteq> Inr (Some V4_0) \<and>
            (\<forall>v. parse buffer' \<noteq> Inr (Some (MsgV40 v))) \<and>
            (0x80 \<le> unat (buffer' ! 0) \<and> unat (buffer' ! 0) \<le> 0xFE \<longrightarrow>
               (\<exists>v. parse buffer' = Inr (Some (MsgV31 v)))))"
proof (intro conjI impI)
  have len: "length buffer' = 22"
    by (simp add: assms(2) length_buildV40)
  have b18: "uint (buffer' ! 18) = expectedChecksum (buildV40 message)"
    using assms(1) by (simp add: assms(2) buildV40_nth18)
  have s: "sum18 buffer' = sum18 (buildV40 message) - uint (buildV40 message ! i) + uint b"
    unfolding assms(2) using assms(1) by (intro sum18_update) (simp_all add: length_buildV40)
  show iff: "(expectedChecksum buffer' = uint (buffer' ! 18)) =
            (uint b mod 128 = uint (buildV40 message ! i) mod 128)"
    unfolding b18 expectedChecksum_mod s by (rule checksum_preserved_iff)
  assume bad: "expectedChecksum buffer' \<noteq> uint (buffer' ! 18)"
  show p40: "parseV40 buffer' = None"
    using bad by (simp add: parseV40_def len split: option.splits)
  have dh: "detectHeader buffer' \<noteq> Some V4_0"
    using bad by (simp add: detectHeader_def Let_def)
  show d40: "detectVersion buffer' \<noteq> Inr (Some V4_0)"
    using dh by (simp add: detectVersion_def readUInt16LE_def len)
  show "\<forall>v. parse buffer' \<noteq> Inr (Some (MsgV40 v))"
    using d40 p40
    by (auto simp: parse_def split: sum.splits option.splits ProtocolVersion.splits)
  assume hdr: "0x80 \<le> unat (buffer' ! 0) \<and> unat (buffer' ! 0) \<le> 0xFE"
  have "detectVersion buffer' = Inr (detectHeader buffer')"
    using hdr by (intro detectVersion_header) (simp_all add: len)
  moreover have "detectHeader buffer' = Some V3_1"
    using hdr bad by (simp add: detectHeader_def Let_def)
  moreover have "\<exists>v. parseV31 buffer' = Some v"
    using hdr by (simp add: parseV31_def Let_def len)
  ultimately show "\<exists>v. parse buffer' = Inr (Some (MsgV31 v))"
    by (auto simp: parse_def)
qed

theorem buildV40_mutation_witness:
  "(2 :: nat) < 18 \<and>
   expectedChecksum ((buildV40 example_V40)[2 := 0x44])
     \<noteq> uint ((buildV40 example_V40)[2 := 0x44] ! 18) \<and>
   0x80 \<le> unat ((buildV40 example_V40)[2 := 0x44] ! 0) \<and>
   unat ((buildV40 example_V40)[2 := 0x44] ! 0) \<le> 0xFE \<and>
   parseV40 ((buildV40 example_V40)[2 := 0x44]) = None \<and>
   detectVersion ((buildV40 example_V40)[2 := 0x44]) \<noteq> Inr (Some V4_0) \<and>
   (\<exists>v. parse ((buildV40 example_V40)[2 := 0x44]) = Inr (Some (MsgV31 v)))"
  using buildV40_mutation [of 2 "(buildV40 example_V40)[2 := 0x44]" example_V40 "0x44"]
  by (simp add: buildV40_example expectedChecksum_def sum18_take)

section \<open>V5.0 encoding\<close>

lemma length_u16le [simp]: "length (u16le v) = 2"
  by (simp add: u16le_def)

lemma length_encodeDisplay:
  "length (encodeDisplay u d) = 6 + length (textBytesOf u (msgText d))"
  by (simp add: encodeDisplay_def)

lemma dataSize_shift:
  "foldl (\<lambda>dataSize display. dataSize + (6 + length (textBytesOf u (msgText display)))) k ds
   = k + length (concat (map (encodeDisplay u) ds))"
  by (induction ds arbitrary: k) (simp_all add: length_encodeDisplay)

lemma dataSizeOf_eq:
  "dataSizeOf m = 4 + length (concat (map (encodeDisplay (unicode (flags m))) (displays m)))"
  by (simp add: dataSizeOf_def dataSize_shift)

lemma dataSizeOf_sum:
  "dataSizeOf m =
     4 + sum_list (map (\<lambda>d. 6 + length (textBytesOf (unicode (flags m)) (msgText d))) (displays m))"
  by (simp add: dataSizeOf_eq length_concat comp_def length_encodeDisplay)

lemma length_encodeV50: "length (encodeV50 m) = 2 + dataSizeOf m"
  by (simp add: encodeV50_def dataSizeOf_eq)

lemma writeUInt16LE_append:
  assumes "0 \<le> v" "v \<le> 65535" "offset = length pre" "2 \<le> length rest"
  shows "writeUInt16LE (pre @ rest) v offset = Inr (pre @ u16le v @ drop 2 rest)"
proof -
  obtain a b rest' where r: "rest = a # b # rest'"
    using assms(4) by (cases rest; cases "tl rest") auto
  show ?thesis
    using assms(1,2) by (simp add: writeUInt16LE_def assms(3) r u16le_def list_update_append)
qed

lemma copyInto_append:
  assumes "offset = length pre" "length src \<le> length rest"
  shows "copyInto (pre @ rest) offset src = pre @ src @ drop (length src) rest"
  using copyInto_eq [of offset src "pre @ rest"] assms by simp

lemma writeDisplays_append:
  assumes "list_all (\<lambda>display. 0 \<le> index display \<and> index display \<le> 65535) ds"
    and "list_all (\<lambda>display. length (textBytesOf u (msgText display)) \<le> 65535) ds"
    and "offset = length pre"
    and "length (concat (map (encodeDisplay u) ds)) \<le> length rest"
  shows "writeDisplays u ds (pre @ rest) offset
         = Inr (pre @ concat (map (encodeDisplay u) ds)
                 @ drop (length (concat (map (encodeDisplay u) ds))) rest)"
  using assms
proof (induction ds arbitrary: pre rest offset)
  case Nil
  show ?case by simp
next
  case (Cons d ds)
  let ?tb = "textBytesOf u (msgText d)"
  let ?n = "length (concat (map (encodeDisplay u) ds))"
  have len: "6 + length ?tb + ?n \<le> length rest"
    using Cons.prems(4) by (simp add: length_encodeDisplay)
  have w1: "writeUInt16LE (pre @ rest) (index d) offset
            = Inr ((pre @ u16le (index d)) @ drop 2 rest)"
    using Cons.prems(1,3) len by (simp add: writeUInt16LE_append)
  have c: "displayControl d < 256"
    by (cases "rightTally d"; cases "textTally d"; cases "leftTally d";
        cases "displayBrightness d"; simp add: displayControl_def)
  have w2: "writeUInt16LE ((pre @ u16le (index d)) @ drop 2 rest) (int (displayControl d))
              (offset + 2)
            = Inr ((pre @ u16le (index d) @ u16le (int (displayControl d))) @ drop 4 rest)"
    using writeUInt16LE_append [of "int (displayControl d)" "offset + 2" "pre @ u16le (index d)"
        "drop 2 rest"] c Cons.prems(3) len
    by simp
  have w3: "writeUInt16LE ((pre @ u16le (index d) @ u16le (int (displayControl d))) @ drop 4 rest)
              (int (length ?tb)) (offset + 2 + 2)
            = Inr ((pre @ u16le (index d) @ u16le (int (displayControl d))
                      @ u16le (int (length ?tb))) @ drop 6 rest)"
    using writeUInt16LE_append [of "int (length ?tb)" "offset + 2 + 2"
        "pre @ u16le (index d) @ u16le (int (displayControl d))" "drop 4 rest"]
      Cons.prems(2,3) len
    by simp
  have c4: "copyInto ((pre @ u16le (index d) @ u16le (int (displayControl d))
                      @ u16le (int (length ?tb))) @ drop 6 rest) (offset + 2 + 2 + 2) ?tb
            = (pre @ encodeDisplay u d) @ drop (6 + length ?tb) rest"
    using copyInto_append [of "offset + 2 + 2 + 2"
        "pre @ u16le (index d) @ u16le (int (displayControl d)) @ u16le (int (length ?tb))"
        ?tb "drop 6 rest"] Cons.prems(3) len
    by (simp add: encodeDisplay_def add.commute)
  have "writeDisplays u (d # ds) (pre @ rest) offset
        = writeDisplays u ds ((pre @ encodeDisplay u d) @ drop (6 + length ?tb) rest)
            (offset + 2 + 2 + 2 + length ?tb)"
    by (simp only: writeDisplays.simps Let_def w1 w2 w3 c4 sum.case)
  also have "\<dots> = Inr ((pre @ encodeDisplay u d) @ concat (map (encodeDisplay u) ds)
                        @ drop ?n (drop (6 + length ?tb) rest))"
    using Cons.prems(1,2,3) len
    by (intro Cons.IH) (simp_all add: length_encodeDisplay)
  finally show ?case
    by (simp add: length_encodeDisplay add.commute)
qed

lemma update01:
  "2 \<le> length xs \<Longrightarrow> xs[0 := a, 1 := b] = [a, b] @ drop 2 xs"
  by (cases xs; cases "tl xs") auto

lemma length_le_concat:
  "d \<in> set ds \<Longrightarrow> length (f d) \<le> length (concat (map f ds))"
  by (induction ds) auto

lemma text_lengths:
  assumes "dataSizeOf m \<le> 65535"
  shows "list_all (\<lambda>display. length (textBytesOf (unicode (flags m)) (msgText display)) \<le> 65535)
           (displays m)"
proof -
  have "length (textBytesOf (unicode (flags m)) (msgText d)) \<le> 65535"
    if "d \<in> set (displays m)" for d
    using length_le_concat [OF that, of "encodeDisplay (unicode (flags m))"] assms
    by (simp add: dataSizeOf_eq length_encodeDisplay)
  then show ?thesis
    by (simp add: list_all_iff)
qed

lemma buildV50_encodable:
  assumes "v50_encodable m"
  shows "buildV50 m = Inr (encodeV50 m)"
proof -
  let ?u = "unicode (flags m)"
  let ?n = "dataSizeOf m"
  let ?body = "concat (map (encodeDisplay ?u) (displays m))"
  have n: "?n = 4 + length ?body"
    by (rule dataSizeOf_eq)
  have w0: "writeUInt16LE (alloc (2 + ?n)) (int ?n) 0 = Inr (u16le (int ?n) @ replicate ?n 0)"
    using writeUInt16LE_append [of "int ?n" 0 "[]" "replicate (2 + ?n) 0"] assms
    by (simp add: v50_encodable_def alloc_def)
  have u: "(u16le (int ?n) @ replicate ?n 0)[2 := a, 3 := b]
           = (u16le (int ?n) @ [a, b]) @ replicate (?n - 2) 0" for a b :: byte
    using update01 [of "replicate ?n 0" a b] n
    by (simp add: list_update_append)
  have w4: "writeUInt16LE ((u16le (int ?n) @ [a, b]) @ replicate (?n - 2) 0) (screen m) 4
            = Inr ((u16le (int ?n) @ [a, b] @ u16le (screen m)) @ replicate (length ?body) 0)"
    for a b :: byte
    using writeUInt16LE_append [of "screen m" 4 "u16le (int ?n) @ [a, b]" "replicate (?n - 2) 0"]
      assms n
    by (simp add: v50_encodable_def)
  have wd: "writeDisplays ?u (displays m)
              ((u16le (int ?n) @ [a, b] @ u16le (screen m)) @ replicate (length ?body) 0) 6
            = Inr ((u16le (int ?n) @ [a, b] @ u16le (screen m)) @ ?body
                   @ drop (length ?body) (replicate (length ?body) 0))"
    for a b :: byte
    using assms text_lengths [of m]
    by (intro writeDisplays_append) (simp_all add: v50_encodable_def)
  show ?thesis
    unfolding buildV50_def Let_def w0 sum.case u w4 wd
    by (simp add: encodeV50_def v50_flags_def Let_def)
qed

lemma bind_fails:
  assumes "\<And>b. f b = (Inl RangeError :: error + 'a)"
  shows "(case w of Inl e \<Rightarrow> Inl e | Inr b \<Rightarrow> f b) = (Inl RangeError :: error + 'a)"
proof (cases w)
  case (Inl e)
  then show ?thesis by (cases e) simp
next
  case (Inr b)
  with assms show ?thesis by simp
qed

lemma writeDisplays_fails:
  assumes "\<not> list_all (\<lambda>display. 0 \<le> index display \<and> index display \<le> 65535) ds"
  shows "writeDisplays u ds buffer offset = Inl RangeError"
  using assms
proof (induction ds arbitrary: buffer offset)
  case Nil
  then show ?case by simp
next
  case (Cons d ds)
  show ?case
  proof (cases "0 \<le> index d \<and> index d \<le> 65535")
    case False
    then show ?thesis
      by (auto simp: writeUInt16LE_def)
  next
    case True
    with Cons.prems
    have "\<not> list_all (\<lambda>display. 0 \<le> index display \<and> index display \<le> 65535) ds"
      by simp
    from Cons.IH [OF this] show ?thesis
      by (simp only: writeDisplays.simps Let_def) (intro bind_fails refl)
  qed
qed

lemma buildV50_not_encodable:
  assumes "\<not> v50_encodable m"
  shows "buildV50 m = Inl RangeError"
proof (cases "dataSizeOf m \<le> 65535")
  case False
  then show ?thesis
    by (simp add: buildV50_def Let_def writeUInt16LE_def)
next
  case size: True
  show ?thesis
  proof (cases "0 \<le> screen m \<and> screen m \<le> 65535")
    case False
    then have "writeUInt16LE b (screen m) 4 = Inl RangeError" for b
      by (auto simp: writeUInt16LE_def)
    then show ?thesis
      by (simp only: buildV50_def Let_def sum.case) (intro bind_fails refl)
  next
    case True
    with size assms
    have "\<not> list_all (\<lambda>display. 0 \<le> index display \<and> index display \<le> 65535) (displays m)"
      by (simp add: v50_encodable_def)
    from writeDisplays_fails [OF this] show ?thesis
      by (simp only: buildV50_def Let_def) (intro bind_fails refl)
  qed
qed

lemma buildV50_eq:
  "buildV50 m = (if v50_encodable m then Inr (encodeV50 m) else Inl RangeError)"
  by (simp add: buildV50_encodable buildV50_not_encodable)

lemma buildV50_Inr_iff:
  "(buildV50 m = Inr buffer) = (v50_encodable m \<and> buffer = encodeV50 m)"
  by (auto simp: buildV50_eq)

lemma u16_decode:
  assumes "0 \<le> v" "v \<le> 65535"
  shows "unat (word_of_int v :: byte) + 256 * unat (word_of_int (drop_bit 8 v) :: byte) = nat v"
proof -
  obtain n where n: "v = int n"
    using assms(1) by (rule nonneg_int_cases)
  have lt: "n div 256 < 256"
    using assms(2) n by simp
  have m: "int n mod 256 = int (n mod 256)"
    by (simp add: zmod_int)
  have d: "int n div 256 mod 256 = int (n div 256)"
    using lt by (simp add: zdiv_int zmod_int)
  have e: "drop_bit 8 (int n) = int n div 256"
    by (simp add: drop_bit_eq_div)
  show ?thesis
    unfolding n unat_word_of_int_byte e m d by simp
qed

lemma readUInt16LE_u16le:
  assumes "0 \<le> v" "v \<le> 65535" "offset = length pre"
  shows "readUInt16LE (pre @ u16le v @ rest) offset = Inr (nat v)"
  using u16_decode [OF assms(1,2)]
  by (simp add: readUInt16LE_def assms(3) u16le_def nth_append)

lemma encodeV50_pbc:
  assumes "v50_encodable m"
  shows "readUInt16LE (encodeV50 m) 0 = Inr (dataSizeOf m)"
  using readUInt16LE_u16le [of "int (dataSizeOf m)" 0 "[]"] assms
  by (simp add: encodeV50_def v50_encodable_def)

lemma dataSizeOf_ge: "4 \<le> dataSizeOf m"
  by (simp add: dataSizeOf_eq)

lemma parseV50_accepts:
  assumes "6 \<le> length buffer" "readUInt16LE buffer 0 = Inr (length buffer - 2)"
  shows "\<exists>m. parseV50 buffer = Inr (Some m) \<and> packetByteCount m = int (length buffer - 2)"
proof -
  obtain ds where "parseDisplays buffer (unat (buffer ! 3) AND 0x01 \<noteq> 0) 6 [] = Inr ds"
    using parseDisplays_returns by blast
  then show ?thesis
    using assms by (auto simp: parseV50_def readUInt16LE_def Let_def)
qed

lemma parse_V5:
  assumes "6 \<le> length buffer" "readUInt16LE buffer 0 = Inr (length buffer - 2)"
  shows "\<exists>m. parse buffer = Inr (Some (MsgV50 m)) \<and> packetByteCount m = int (length buffer - 2)"
proof -
  have "detectVersion buffer = Inr (Some V5_0)"
    using assms by (simp add: detectVersion_def)
  with parseV50_accepts [OF assms] show ?thesis
    by (auto simp: parse_def)
qed

lemma parse_not_V5:
  assumes "detectVersion buffer \<noteq> Inr (Some V5_0)"
  shows "parse buffer \<noteq> Inr (Some (MsgV50 v))"
  using assms
  by (auto simp: parse_def split: sum.splits option.splits ProtocolVersion.splits)

lemma resized_not_V5:
  assumes "6 \<le> length buffer" "readUInt16LE buffer 0 = Inr (length buffer - 2)"
    and "length buffer' \<noteq> length buffer" "2 \<le> length buffer'"
    and "buffer' ! 0 = buffer ! 0" "buffer' ! 1 = buffer ! 1"
  shows "parseV50 buffer' = Inr None \<and> detectVersion buffer' \<noteq> Inr (Some V5_0)"
  using assms
  by (auto simp: parseV50_def detectVersion_def readUInt16LE_def detectHeader_def Let_def
      split: if_splits)

lemma header_parse:
  assumes "35 \<le> length buffer" "0x80 \<le> unat (buffer ! 0)" "unat (buffer ! 0) \<le> 0xFE"
    and "detectVersion buffer \<noteq> Inr (Some V5_0)"
  shows "\<exists>m. parse buffer = Inr (Some m) \<and> version m \<noteq> V5_0"
proof -
  have d: "detectVersion buffer = Inr (detectHeader buffer)"
    using assms(1,4) by (auto simp: detectVersion_def readUInt16LE_def split: if_splits)
  obtain v where v: "parseV31 buffer = Some v"
    using assms(1-3) by (auto simp: parseV31_def Let_def)
  show ?thesis
  proof (cases "18 < length buffer \<and> uint (buffer ! 18) = expectedChecksum buffer")
    case True
    have x: "unat (buffer ! 19) AND 0x0F \<le> 15"
      using take_bit_eq_mask [of 4 "unat (buffer ! 19)"]
      by (simp add: take_bit_eq_mod mask_eq_exp_minus_1)
    have "\<exists>w. parseV40 buffer = Some w"
      using assms(1) True x by (simp add: parseV40_def Let_def v)
    then show ?thesis
      using True assms(2,3) by (auto simp: parse_def d detectHeader_def Let_def)
  next
    case False
    then show ?thesis
      using assms(2,3) by (auto simp: parse_def d detectHeader_def Let_def v)
  qed
qed

text \<open>
  Claim C9, as stated: for every V5.0 message, whatever its \<^verbatim>\<open>packetByteCount\<close>, the
  buffer of \<^verbatim>\<open>buildV50\<close> has a byte count equal to its length minus 2. A message with
  one display of 65530 characters has a data size of 65540, which is no 16-bit
  number: \<^verbatim>\<open>writeUInt16LE(dataSize, 0)\<close> raises a \<^verbatim>\<open>RangeError\<close> and there is no buffer.
\<close>

theorem buildV50_packetByteCount_counterexample: "buildV50 (long_V50 65530) = Inl RangeError"
  by (simp add: long_V50_def buildV50_def dataSizeOf_def textBytesOf_def from_ascii_def
      writeUInt16LE_def Let_def)

text \<open>
  Claim C9, amended: \<^verbatim>\<open>buildV50\<close> never reads \<^verbatim>\<open>packetByteCount\<close>; the data size is 4 plus,
  for each display, 6 plus the length of the encoded text; \<^verbatim>\<open>buildV50\<close> returns a
  buffer exactly for the encodable messages (data size, screen and display indices
  are unsigned 16-bit numbers); and for those the buffer has the data size plus 2
  bytes, its first 16 bits are its length minus 2, and \<^verbatim>\<open>parse\<close> returns a V5.0 message
  whose \<^verbatim>\<open>packetByteCount\<close> is the data size.
\<close>

theorem buildV50_packetByteCount:
  "buildV50 (x\<lparr>packetByteCount := p\<rparr>) = buildV50 x \<and>
   dataSizeOf x =
     4 + sum_list (map (\<lambda>d. 6 + length (textBytesOf (unicode (flags x)) (msgText d)))
           (displays x)) \<and>
   ((\<exists>buffer. buildV50 x = Inr buffer) = v50_encodable x) \<and>
   (v50_encodable x \<longrightarrow>
      (\<exists>buffer m. buildV50 x = Inr buffer \<and> length buffer = 2 + dataSizeOf x \<and>
         readUInt16LE buffer 0 = Inr (length buffer - 2) \<and>
         parse buffer = Inr (Some (MsgV50 m)) \<and> packetByteCount m = int (dataSizeOf x)))"
proof (intro conjI impI)
  show "buildV50 (x\<lparr>packetByteCount := p\<rparr>) = buildV50 x"
    by (simp add: buildV50_eq v50_encodable_def encodeV50_def dataSizeOf_def v50_flags_def)
  show "dataSizeOf x =
     4 + sum_list (map (\<lambda>d. 6 + length (textBytesOf (unicode (flags x)) (msgText d)))
           (displays x))"
    by (rule dataSizeOf_sum)
  show "(\<exists>buffer. buildV50 x = Inr buffer) = v50_encodable x"
    by (simp add: buildV50_eq)
  assume e: "v50_encodable x"
  have l: "length (encodeV50 x) = 2 + dataSizeOf x"
    by (rule length_encodeV50)
  have r: "readUInt16LE (encodeV50 x) 0 = Inr (length (encodeV50 x) - 2)"
    using encodeV50_pbc [OF e] by (simp add: l)
  have "6 \<le> length (encodeV50 x)"
    using dataSizeOf_ge [of x] by (simp add: l)
  from parse_V5 [OF this r]
  obtain m where "parse (encodeV50 x) = Inr (Some (MsgV50 m))"
    "packetByteCount m = int (dataSizeOf x)"
    by (auto simp: l)
  with e l r show "\<exists>buffer m. buildV50 x = Inr buffer \<and> length buffer = 2 + dataSizeOf x \<and>
         readUInt16LE buffer 0 = Inr (length buffer - 2) \<and>
         parse buffer = Inr (Some (MsgV50 m)) \<and> packetByteCount m = int (dataSizeOf x)"
    by (auto simp: buildV50_eq)
qed

theorem buildV50_packetByteCount_witness:
  "v50_encodable example_V50 \<and> packetByteCount example_V50 = 0 \<and>
   buildV50 example_V50
     = Inr [0x0C, 0x00, 0x00, 0x00, 0x00, 0x00, 0x01, 0x00, 0xD2, 0x00, 0x02, 0x00, 0x41, 0x42] \<and>
   (\<exists>m. parse [0x0C, 0x00, 0x00, 0x00, 0x00, 0x00, 0x01, 0x00, 0xD2, 0x00, 0x02, 0x00, 0x41, 0x42]
         = Inr (Some (MsgV50 m)) \<and> packetByteCount m = 12)"
proof -
  have e: "v50_encodable example_V50"
    by code_simp
  have b: "buildV50 example_V50
     = Inr [0x0C, 0x00, 0x00, 0x00, 0x00, 0x00, 0x01, 0x00, 0xD2, 0x00, 0x02, 0x00, 0x41, 0x42]"
    by code_simp
  have d: "dataSizeOf example_V50 = 12" "packetByteCount example_V50 = 0"
    by code_simp+
  show ?thesis
    using buildV50_packetByteCount [of 0 example_V50] e b d by auto
qed


section \<open>V5.0 buffers of the wrong length\<close>

lemma buildV50_long:
  "buildV50 (long_V50 118)
     = Inr ([0x80, 0x00, 0x00, 0x00, 0x00, 0x00, 0x01, 0x00, 0xC0, 0x00, 0x76, 0x00]
            @ replicate 118 0x41)"
proof -
  have d: "dataSizeOf (long_V50 118) = 128"
    by (simp add: dataSizeOf_def long_V50_def textBytesOf_def from_ascii_def)
  have "v50_encodable (long_V50 118)"
    by (simp add: v50_encodable_def d) (simp add: long_V50_def)
  then have "buildV50 (long_V50 118) = Inr (encodeV50 (long_V50 118))"
    by (rule buildV50_encodable)
  also have "encodeV50 (long_V50 118)
     = [0x80, 0x00, 0x00, 0x00, 0x00, 0x00, 0x01, 0x00, 0xC0, 0x00, 0x76, 0x00]
            @ replicate 118 0x41"
    by (simp add: encodeV50_def d)
       (simp add: long_V50_def encodeDisplay_def u16le_def textBytesOf_def from_ascii_def
          v50_flags_def displayControl_def drop_bit_eq_div)
  finally show ?thesis .
qed

lemma parse_long_truncated:
  "parse ([0x80, 0x00, 0x00, 0x00, 0x00, 0x00, 0x01, 0x00, 0xC0, 0x00, 0x76, 0x00]
                   @ replicate 117 0x41)
     = Inr (Some (MsgV31 \<lparr>address = 0, tally1 = False, tally2 = False, tally3 = False,
         tally4 = False, brightness = BrightOFF,
         displayText = [0x20, 0x20, 0x20, 0x20, 0x20, 0x20, 0x40, 0x20, 0x76, 0x20]
                        @ replicate 6 0x41\<rparr>))"
  by (simp add: parse_def detectVersion_def detectHeader_def readUInt16LE_def parseV31_def
      Let_def expectedChecksum_def sum18_take nth_append as_Brightness_def
      replaceControl_def toString_ascii_def buf_slice_def sum_list_replicate)

lemma butlast_long:
  "butlast ([0x80, 0x00, 0x00, 0x00, 0x00, 0x00, 0x01, 0x00, 0xC0, 0x00, 0x76, 0x00]
            @ replicate 118 (0x41 :: byte))
   = [0x80, 0x00, 0x00, 0x00, 0x00, 0x00, 0x01, 0x00, 0xC0, 0x00, 0x76, 0x00]
     @ replicate 117 0x41"
proof -
  have "replicate (Suc 117) (0x41 :: byte) = replicate 117 0x41 @ [0x41]"
    by (simp only: replicate_Suc replicate_append_same)
  moreover have "(118 :: nat) = Suc 117"
    by simp
  ultimately have r: "replicate 118 (0x41 :: byte) = replicate 117 0x41 @ [0x41]"
    by (simp only:)
  show ?thesis
    unfolding r by (simp only: append_assoc [symmetric] butlast_snoc)
qed

text \<open>
  Claim C4, as stated: a V5.0 buffer without its last byte is not decoded. The
  message with one display of 118 letters has the data size 128, so its buffer starts
  with \<open>0x80\<close>; without the last byte the byte count no longer fits, the first byte is
  a V3.1 header, and \<^verbatim>\<open>parse\<close> returns a V3.1 message.
\<close>

theorem buildV50_resized_counterexample:
  "buildV50 (long_V50 118)
     = Inr ([0x80, 0x00, 0x00, 0x00, 0x00, 0x00, 0x01, 0x00, 0xC0, 0x00, 0x76, 0x00]
            @ replicate 118 0x41) \<and>
   parse (butlast ([0x80, 0x00, 0x00, 0x00, 0x00, 0x00, 0x01, 0x00, 0xC0, 0x00, 0x76, 0x00]
            @ replicate 118 0x41))
     = Inr (Some (MsgV31 \<lparr>address = 0, tally1 = False, tally2 = False, tally3 = False,
         tally4 = False, brightness = BrightOFF,
         displayText = [0x20, 0x20, 0x20, 0x20, 0x20, 0x20, 0x40, 0x20, 0x76, 0x20]
                        @ replicate 6 0x41\<rparr>))"
  by (simp only: buildV50_long butlast_long parse_long_truncated simp_thms)

text \<open>
  Claim C4, amended: for a buffer that \<^verbatim>\<open>buildV50\<close> returns, without its last byte or
  with one more byte, \<^verbatim>\<open>parseV50\<close> fails, \<^verbatim>\<open>detectVersion\<close> does not answer V5.0 and
  \<^verbatim>\<open>parse\<close> returns no V5.0 message. \<^verbatim>\<open>parse\<close> fails when the first byte of the buffer
  (the low byte of the data size) is outside \<open>0x80\<close> to \<open>0xFE\<close>; when it is inside,
  \<^verbatim>\<open>parse\<close> returns a V3.1 or V4.0 message.
\<close>

theorem buildV50_resized:
  assumes "buildV50 x = Inr buffer" and "buffer' = butlast buffer \<or> buffer' = buffer @ [b]"
  shows "parseV50 buffer' = Inr None \<and> detectVersion buffer' \<noteq> Inr (Some V5_0) \<and>
         (\<forall>v. parse buffer' \<noteq> Inr (Some (MsgV50 v))) \<and>
         (if 0x80 \<le> unat (buffer ! 0) \<and> unat (buffer ! 0) \<le> 0xFE
          then \<exists>m. parse buffer' = Inr (Some m) \<and> version m \<noteq> V5_0
          else parse buffer' = Inr None)"
proof -
  from assms(1) have e: "v50_encodable x" and b: "buffer = encodeV50 x"
    by (simp_all add: buildV50_Inr_iff)
  have l: "length buffer = 2 + dataSizeOf x"
    by (simp add: b length_encodeV50)
  have l6: "6 \<le> length buffer"
    using dataSizeOf_ge [of x] by (simp add: l)
  have r: "readUInt16LE buffer 0 = Inr (length buffer - 2)"
    using encodeV50_pbc [OF e] by (simp add: b length_encodeV50)
  have l': "length buffer' \<noteq> length buffer" "5 \<le> length buffer'"
    using assms(2) l6 by auto
  have n: "buffer' ! 0 = buffer ! 0" "buffer' ! 1 = buffer ! 1"
    using assms(2) l6 by (auto simp: nth_butlast nth_append)
  have nv: "parseV50 buffer' = Inr None \<and> detectVersion buffer' \<noteq> Inr (Some V5_0)"
    using l' by (intro resized_not_V5 [OF l6 r _ _ n]) simp_all
  have h: "unat (buffer ! 0) = dataSizeOf x mod 256"
    by (simp add: b encodeV50_def u16le_def unat_of_nat_byte)
  have last: "(if 0x80 \<le> unat (buffer ! 0) \<and> unat (buffer ! 0) \<le> 0xFE
          then \<exists>m. parse buffer' = Inr (Some m) \<and> version m \<noteq> V5_0
          else parse buffer' = Inr None)"
  proof (cases "0x80 \<le> unat (buffer ! 0) \<and> unat (buffer ! 0) \<le> 0xFE")
    case True
    then have "128 \<le> dataSizeOf x"
      unfolding h by (metis mod_le_divisor mod_less_eq_dividend order_trans zero_less_numeral)
    then have "35 \<le> length buffer'"
      using assms(2) l by auto
    from header_parse [OF this] True nv show ?thesis
      by (simp add: n)
  next
    case False
    then have "detectHeader buffer' = None"
      by (auto simp: detectHeader_def Let_def n)
    moreover have "detectVersion buffer' = Inr (detectHeader buffer')"
      using nv l' by (auto simp: detectVersion_def readUInt16LE_def split: if_splits)
    ultimately show ?thesis
      using False by (simp add: parse_def)
  qed
  from nv parse_not_V5 [of buffer'] last show ?thesis
    by blast
qed


theorem buildV50_resized_witness:
  "buildV50 example_V50
     = Inr [0x0C, 0x00, 0x00, 0x00, 0x00, 0x00, 0x01, 0x00, 0xD2, 0x00, 0x02, 0x00, 0x41, 0x42] \<and>
   parseV50 (butlast [0x0C, 0x00, 0x00, 0x00, 0x00, 0x00, 0x01, 0x00, 0xD2, 0x00, 0x02, 0x00,
                      0x41, 0x42]) = Inr None \<and>
   detectVersion (butlast [0x0C, 0x00, 0x00, 0x00, 0x00, 0x00, 0x01, 0x00, 0xD2, 0x00, 0x02,
                           0x00, 0x41, 0x42]) \<noteq> Inr (Some V5_0) \<and>
   parse (butlast [0x0C, 0x00, 0x00, 0x00, 0x00, 0x00, 0x01, 0x00, 0xD2, 0x00, 0x02, 0x00,
                   0x41, 0x42]) = Inr None"
proof -
  have b: "buildV50 example_V50
     = Inr [0x0C, 0x00, 0x00, 0x00, 0x00, 0x00, 0x01, 0x00, 0xD2, 0x00, 0x02, 0x00, 0x41, 0x42]"
    by code_simp
  show ?thesis
    using buildV50_resized [OF b, of "butlast [0x0C, 0x00, 0x00, 0x00, 0x00, 0x00, 0x01, 0x00,
      0xD2, 0x00, 0x02, 0x00, 0x41, 0x42]" 0] b
    by simp
qed

section \<open>Decoding what was encoded\<close>

lemma displayControl_props:
  "displayControl d < 256 \<and> displayControl d AND 0x8000 = 0 \<and>
   as_TallyState (displayControl d AND 0x03) = rightTally d \<and>
   as_TallyState (drop_bit 2 (displayControl d) AND 0x03) = textTally d \<and>
   as_TallyState (drop_bit 4 (displayControl d) AND 0x03) = leftTally d \<and>
   as_Brightness (drop_bit 6 (displayControl d) AND 0x03) = displayBrightness d"
  by (cases "rightTally d"; cases "textTally d"; cases "leftTally d"; cases "displayBrightness d";
      simp add: displayControl_def as_TallyState_def as_Brightness_def)

lemma ascii_roundtrip:
  assumes "ascii_text s"
  shows "toString_ascii (from_ascii s) = s"
proof -
  have "(ucast ((ucast c :: byte) AND 0x7F) :: 16 word) = c" if "c \<le> 0x7F" for c :: "16 word"
    using that by (auto simp: word_le_nat_alt word_unat_eq_iff and7F unat_ucast_byte unat_ucast_low)
  then have "map (\<lambda>c. (ucast ((ucast c :: byte) AND 0x7F) :: 16 word)) s = s"
    using assms by (intro map_idI) (simp add: ascii_text_def list_all_iff)
  then show ?thesis
    by (simp add: toString_ascii_def from_ascii_def comp_def)
qed

lemma utf16_roundtrip: "toString_utf16le (from_utf16le s) = s"
  by (induction s) (simp_all add: from_utf16le_def utf16_pair)

lemma text_roundtrip:
  assumes "text_ok u s"
  shows "(if u then toString_utf16le (textBytesOf u s) else toString_ascii (textBytesOf u s)) = s"
  using assms by (auto simp: text_ok_def textBytesOf_def ascii_roundtrip utf16_roundtrip)

lemma buf_slice_middle:
  "a = length p \<Longrightarrow> b = length p + length t \<Longrightarrow> buf_slice (p @ t @ r) a b = t"
  by (simp add: buf_slice_def)

lemma walkStep_encoded:
  assumes "display_ok u d"
  shows "walkStep (pre @ encodeDisplay u d @ rest) u (length pre)
         = Inr (Some (d, length pre + length (encodeDisplay u d)))"
proof -
  let ?tb = "textBytesOf u (msgText d)"
  let ?b = "pre @ encodeDisplay u d @ rest"
  have i: "0 \<le> index d" "index d \<le> 65535" and n: "length ?tb \<le> 65535"
    and t: "text_ok u (msgText d)"
    using assms by (simp_all add: display_ok_def)
  note c = displayControl_props [of d]
  have b: "?b = pre @ u16le (index d) @ u16le (int (displayControl d))
                  @ u16le (int (length ?tb)) @ ?tb @ rest"
    by (simp add: encodeDisplay_def)
  have r0: "readUInt16LE ?b (length pre) = Inr (nat (index d))"
    unfolding b by (rule readUInt16LE_u16le [OF i refl])
  have r2: "readUInt16LE ?b (length pre + 2) = Inr (displayControl d)"
    using readUInt16LE_u16le [of "int (displayControl d)" "length pre + 2" "pre @ u16le (index d)"
        "u16le (int (length ?tb)) @ ?tb @ rest"] c
    by (simp add: b)
  have r4: "readUInt16LE ?b (length pre + 4) = Inr (length ?tb)"
    using readUInt16LE_u16le [of "int (length ?tb)" "length pre + 4"
        "pre @ u16le (index d) @ u16le (int (displayControl d))" "?tb @ rest"] n
    by (simp add: b)
  have s: "buf_slice ?b (length pre + 6) (length pre + 6 + length ?tb) = ?tb"
    using buf_slice_middle [of "length pre + 6"
        "pre @ u16le (index d) @ u16le (int (displayControl d)) @ u16le (int (length ?tb))"
        "length pre + 6 + length ?tb" ?tb rest]
    by (simp add: b)
  have l: "length ?b = length pre + 6 + length ?tb + length rest"
    by (simp add: length_encodeDisplay)
  have lt: "length pre < length ?b" "\<not> length ?b - length pre < 6"
    "\<not> length ?b - (length pre + 6) < length ?tb"
    unfolding l by simp_all
  show ?thesis
    unfolding walkStep_def
    using c text_roundtrip [OF t] i
    by (simp only: lt r0 r2 r4 s Let_def sum.case if_True if_False not_not simp_thms
          length_encodeDisplay)
       (auto simp: add.assoc)
qed

lemma parseDisplays_encoded:
  assumes "list_all (display_ok u) ds"
  shows "parseDisplays (pre @ concat (map (encodeDisplay u) ds)) u (length pre) acc
         = Inr (acc @ ds)"
  using assms
proof (induction ds arbitrary: pre acc)
  case Nil
  have "walkStep pre u (length pre) = Inr None"
    by (simp add: walkStep_def)
  then show ?case
    by (subst parseDisplays.simps) simp
next
  case (Cons d ds)
  have ok: "display_ok u d" "list_all (display_ok u) ds"
    using Cons.prems by simp_all
  let ?rest = "concat (map (encodeDisplay u) ds)"
  have w: "walkStep (pre @ encodeDisplay u d @ ?rest) u (length pre)
           = Inr (Some (d, length (pre @ encodeDisplay u d)))"
    using walkStep_encoded [OF ok(1), of pre ?rest] by simp
  have "parseDisplays (pre @ concat (map (encodeDisplay u) (d # ds))) u (length pre) acc
        = parseDisplays ((pre @ encodeDisplay u d) @ ?rest) u (length (pre @ encodeDisplay u d))
            (acc @ [d])"
    by (subst parseDisplays.simps) (simp add: w)
  also have "\<dots> = Inr ((acc @ [d]) @ ds)"
    by (rule Cons.IH [OF ok(2)])
  finally show ?case by simp
qed

lemma v50_flags_props:
  "v50_flags m < 4 \<and> (v50_flags m AND 0x01 \<noteq> 0) = unicode (flags m) \<and>
   (v50_flags m AND 0x02 \<noteq> 0) = screenControl (flags m)"
  by (cases "unicode (flags m)"; cases "screenControl (flags m)"; simp add: v50_flags_def)

lemma displays_ok:
  assumes "valid_V50 m"
  shows "list_all (display_ok (unicode (flags m))) (displays m)"
proof -
  have "v50_encodable m"
    using assms by (simp add: valid_V50_def)
  then have "dataSizeOf m \<le> 65535"
    "list_all (\<lambda>display. 0 \<le> index display \<and> index display \<le> 65535) (displays m)"
    by (simp_all add: v50_encodable_def)
  with text_lengths [of m] assms show ?thesis
    by (simp add: valid_V50_def list_all_iff display_ok_def)
qed

lemma parseV50_encodeV50:
  assumes "valid_V50 m"
  shows "parseV50 (encodeV50 m) = Inr (Some m)"
proof -
  let ?u = "unicode (flags m)"
  let ?pre = "u16le (int (dataSizeOf m)) @ [word_of_int (minorVersion m), of_nat (v50_flags m)]
                @ u16le (screen m)"
  let ?body = "concat (map (encodeDisplay ?u) (displays m))"
  have e: "v50_encodable m"
    using assms by (simp add: valid_V50_def)
  have b: "encodeV50 m = ?pre @ ?body"
    by (simp add: encodeV50_def)
  have l6: "\<not> length (encodeV50 m) < 6"
    using dataSizeOf_ge [of m] by (simp add: length_encodeV50)
  have r0: "readUInt16LE (encodeV50 m) 0 = Inr (dataSizeOf m)"
    by (rule encodeV50_pbc [OF e])
  have pbc: "dataSizeOf m = length (encodeV50 m) - 2"
    by (simp add: length_encodeV50)
  have r4: "readUInt16LE (encodeV50 m) 4 = Inr (nat (screen m))"
    using readUInt16LE_u16le [of "screen m" 4
        "u16le (int (dataSizeOf m)) @ [word_of_int (minorVersion m), of_nat (v50_flags m)]" ?body] e
    by (simp add: encodeV50_def v50_encodable_def)
  have ver: "int (unat (encodeV50 m ! 2)) = minorVersion m"
    using assms by (simp add: encodeV50_def u16le_def valid_V50_def unat_word_of_int_byte)
  have fl: "unat (encodeV50 m ! 3) = v50_flags m"
    using v50_flags_props [of m] by (simp add: encodeV50_def u16le_def unat_of_nat_byte)
  have scr: "int (nat (screen m)) = screen m"
    using e by (simp add: v50_encodable_def)
  have pd: "parseDisplays (encodeV50 m) ?u 6 [] = Inr (displays m)"
    using parseDisplays_encoded [OF displays_ok [OF assms], of ?pre "[]"]
    by (simp add: b)
  have sc: "screenControl (flags m) \<Longrightarrow> displays m = []"
    using assms by (simp add: valid_V50_def)
  have p: "int (dataSizeOf m) = packetByteCount m"
    using assms by (simp add: valid_V50_def)
  show ?thesis
    unfolding parseV50_def
    using v50_flags_props [of m] sc
    by (simp only: l6 r0 r4 pbc [symmetric] Let_def sum.case if_False fl simp_thms ver scr p)
       (auto simp: pd)
qed

lemma parse_buildV50:
  assumes "valid_V50 m"
  shows "buildV50 m = Inr (encodeV50 m) \<and> parse (encodeV50 m) = Inr (Some (MsgV50 m))"
proof -
  have e: "v50_encodable m"
    using assms by (simp add: valid_V50_def)
  have "6 \<le> length (encodeV50 m)"
    using dataSizeOf_ge [of m] by (simp add: length_encodeV50)
  moreover have "readUInt16LE (encodeV50 m) 0 = Inr (length (encodeV50 m) - 2)"
    using encodeV50_pbc [OF e] by (simp add: length_encodeV50)
  ultimately have "detectVersion (encodeV50 m) = Inr (Some V5_0)"
    by (simp add: detectVersion_def)
  then show ?thesis
    by (simp add: parse_def parseV50_encodeV50 [OF assms] buildV50_encodable [OF e])
qed

text \<open>
  Claim C1, as stated: decoding an encoded valid message gives the message back
  (up to the 16 characters of a V3.1/V4.0 text). A V5.0 message with the
  screen-control flag and one display is encoded with its display, and decoded
  without: \<^verbatim>\<open>parseV50\<close> returns an empty display list when the flag is set.
\<close>

theorem decode_encode_counterexample:
  "buildV50 (example_V50\<lparr>packetByteCount := 12, flags := \<lparr>unicode = False, screenControl = True\<rparr>\<rparr>)
     = Inr [0x0C, 0x00, 0x00, 0x02, 0x00, 0x00, 0x01, 0x00, 0xD2, 0x00, 0x02, 0x00, 0x41, 0x42] \<and>
   parse [0x0C, 0x00, 0x00, 0x02, 0x00, 0x00, 0x01, 0x00, 0xD2, 0x00, 0x02, 0x00, 0x41, 0x42]
     = Inr (Some (MsgV50 \<lparr>packetByteCount = 12, minorVersion = 0,
          flags = \<lparr>unicode = False, screenControl = True\<rparr>, screen = 0, displays = []\<rparr>)) \<and>
   displays (example_V50\<lparr>packetByteCount := 12,
      flags := \<lparr>unicode = False, screenControl = True\<rparr>\<rparr>) \<noteq> []"
  by code_simp

text \<open>
  Claim C1, amended: for a valid V3.1 or V4.0 message (address 0 to 126, printable
  text), the decoder of the version and the auto-detecting \<^verbatim>\<open>parse\<close> return the message
  with its text padded with spaces and cut to 16 characters; for a valid V5.0 message
  (see \<open>valid_V50\<close>: in particular no display when the screen-control flag is set),
  \<^verbatim>\<open>buildV50\<close> returns a buffer on which \<^verbatim>\<open>parseV50\<close> and \<^verbatim>\<open>parse\<close> return the message.
\<close>

theorem decode_encode:
  "(valid_V31 m31 \<longrightarrow>
      parseV31 (buildV31 m31)
        = Some (m31\<lparr>displayText := take 16 (padEnd (displayText m31) 16)\<rparr>) \<and>
      parse (buildV31 m31)
        = Inr (Some (MsgV31 (m31\<lparr>displayText := take 16 (padEnd (displayText m31) 16)\<rparr>)))) \<and>
   (valid_V40 m40 \<longrightarrow>
      parseV40 (buildV40 m40)
        = Some (m40\<lparr>displayText := take 16 (padEnd (displayText m40) 16)\<rparr>) \<and>
      parse (buildV40 m40)
        = Inr (Some (MsgV40 (m40\<lparr>displayText := take 16 (padEnd (displayText m40) 16)\<rparr>)))) \<and>
   (valid_V50 m50 \<longrightarrow>
      (\<exists>buffer. buildV50 m50 = Inr buffer \<and> parseV50 buffer = Inr (Some m50) \<and>
         parse buffer = Inr (Some (MsgV50 m50))))"
proof (intro conjI impI)
  assume v: "valid_V31 m31"
  show "parseV31 (buildV31 m31)
        = Some (m31\<lparr>displayText := take 16 (padEnd (displayText m31) 16)\<rparr>)"
    using parseV31_buildV31 [OF v, of "[]"] by (simp add: text16_def)
  show "parse (buildV31 m31)
        = Inr (Some (MsgV31 (m31\<lparr>displayText := take 16 (padEnd (displayText m31) 16)\<rparr>)))"
    using parse_buildV31 [OF v] by (simp add: text16_def)
next
  assume v: "valid_V40 m40"
  show "parseV40 (buildV40 m40)
        = Some (m40\<lparr>displayText := take 16 (padEnd (displayText m40) 16)\<rparr>)"
    using parseV40_buildV40 [OF v] by (simp add: text16_def)
  show "parse (buildV40 m40)
        = Inr (Some (MsgV40 (m40\<lparr>displayText := take 16 (padEnd (displayText m40) 16)\<rparr>)))"
    using parse_buildV40 [OF v] by (simp add: text16_def)
next
  assume v: "valid_V50 m50"
  show "\<exists>buffer. buildV50 m50 = Inr buffer \<and> parseV50 buffer = Inr (Some m50) \<and>
         parse buffer = Inr (Some (MsgV50 m50))"
    using parse_buildV50 [OF v] parseV50_encodeV50 [OF v] by blast
qed

theorem decode_encode_witness:
  "valid_V31 (TslBaseMessage.truncate example_V40) \<and> valid_V40 example_V40 \<and>
   valid_V50 (example_V50\<lparr>packetByteCount := 12\<rparr>) \<and>
   parse (buildV31 (TslBaseMessage.truncate example_V40))
     = Inr (Some (MsgV31 ((TslBaseMessage.truncate example_V40)
         \<lparr>displayText := [0x43, 0x41, 0x4D, 0x20, 0x31, 0x20, 0x20, 0x20, 0x20, 0x20, 0x20,
                          0x20, 0x20, 0x20, 0x20, 0x20]\<rparr>))) \<and>
   parse (buildV40 example_V40)
     = Inr (Some (MsgV40 (example_V40
         \<lparr>displayText := [0x43, 0x41, 0x4D, 0x20, 0x31, 0x20, 0x20, 0x20, 0x20, 0x20, 0x20,
                          0x20, 0x20, 0x20, 0x20, 0x20]\<rparr>))) \<and>
   (\<exists>buffer. buildV50 (example_V50\<lparr>packetByteCount := 12\<rparr>) = Inr buffer \<and>
      parse buffer = Inr (Some (MsgV50 (example_V50\<lparr>packetByteCount := 12\<rparr>))))"
proof -
  have v: "valid_V31 (TslBaseMessage.truncate example_V40)" "valid_V40 example_V40"
    "valid_V50 (example_V50\<lparr>packetByteCount := 12\<rparr>)"
    by code_simp+
  have t: "take 16 (padEnd (displayText example_V40) 16)
           = [0x43, 0x41, 0x4D, 0x20, 0x31, 0x20, 0x20, 0x20, 0x20, 0x20, 0x20,
              0x20, 0x20, 0x20, 0x20, 0x20]"
    "displayText (TslBaseMessage.truncate example_V40) = displayText example_V40"
    by code_simp+
  show ?thesis
    using decode_encode [of "TslBaseMessage.truncate example_V40" example_V40
        "example_V50\<lparr>packetByteCount := 12\<rparr>"] v t
    by auto
qed

section \<open>TCP framing\<close>

lemma countDle_shift:
  "foldl (\<lambda>dleCount byte. if byte = DLE then dleCount + 1 else dleCount) (k + j) bs
   = (k :: nat) + foldl (\<lambda>dleCount byte. if byte = DLE then dleCount + 1 else dleCount) j bs"
proof (induction bs arbitrary: j)
  case Nil
  show ?case by simp
next
  case (Cons b bs)
  show ?case
    using Cons.IH [of "Suc j"] Cons.IH [of j] by simp
qed

lemma countDle_Cons: "countDle (b # bs) = (if b = DLE then 1 else 0) + countDle bs"
  using countDle_shift [of 1 0 bs] by (simp add: countDle_def)

lemma length_stuffed: "length (stuffed bs) = length bs + countDle bs"
  by (induction bs) (simp_all add: countDle_Cons, simp add: countDle_def)

lemma take_Suc_update:
  "i < length xs \<Longrightarrow> take (Suc i) (xs[i := b]) = take i xs @ [b]"
  by (simp add: take_Suc_conv_app_nth)

lemma stuffLoop_eq:
  "offset + length (stuffed bs) \<le> length wrapped \<Longrightarrow>
   stuffLoop wrapped offset bs =
     take offset wrapped @ stuffed bs @ drop (offset + length (stuffed bs)) wrapped"
proof (induction bs arbitrary: wrapped offset)
  case Nil
  then show ?case by simp
next
  case (Cons b bs)
  show ?case
  proof (cases "b = DLE")
    case True
    let ?w = "wrapped[offset := DLE, Suc offset := DLE]"
    have le: "Suc (Suc offset) + length (stuffed bs) \<le> length ?w"
      using Cons.prems True by simp
    have tk: "take (Suc (Suc offset)) ?w = take offset wrapped @ [DLE, DLE]"
      using Cons.prems True by (simp add: take_Suc_conv_app_nth)
    have dr: "drop (Suc (Suc offset) + length (stuffed bs)) ?w
              = drop (Suc (Suc offset) + length (stuffed bs)) wrapped"
      by simp
    have "stuffLoop wrapped offset (b # bs) = stuffLoop ?w (Suc (Suc offset)) bs"
      using True by simp
    also have "\<dots> = take (Suc (Suc offset)) ?w @ stuffed bs
                    @ drop (Suc (Suc offset) + length (stuffed bs)) ?w"
      by (rule Cons.IH [OF le])
    finally show ?thesis
      using True by (simp add: tk dr)
  next
    case False
    let ?w = "wrapped[offset := b]"
    have le: "Suc offset + length (stuffed bs) \<le> length ?w"
      using Cons.prems False by simp
    have tk: "take (Suc offset) ?w = take offset wrapped @ [b]"
      using Cons.prems False by (simp add: take_Suc_conv_app_nth)
    have "stuffLoop wrapped offset (b # bs) = stuffLoop ?w (Suc offset) bs"
      using False by simp
    also have "\<dots> = take (Suc offset) ?w @ stuffed bs
                    @ drop (Suc offset + length (stuffed bs)) ?w"
      by (rule Cons.IH [OF le])
    finally show ?thesis
      using False by (simp add: tk)
  qed
qed

lemma wrapForTcp_eq: "wrapForTcp bs = DLE # STX # stuffed bs"
proof -
  let ?w = "(alloc (2 + length bs + countDle bs))[0 := DLE, 1 := STX]"
  have "stuffLoop ?w 2 bs = take 2 ?w @ stuffed bs @ drop (2 + length (stuffed bs)) ?w"
    by (rule stuffLoop_eq) (simp add: alloc_def length_stuffed)
  moreover have "take 2 ?w = [DLE, STX]"
    by (simp add: alloc_def numeral_2_eq_2 take_Suc_conv_app_nth)
  moreover have "drop (2 + length (stuffed bs)) ?w = []"
    by (simp add: alloc_def length_stuffed)
  ultimately show ?thesis
    by (simp add: wrapForTcp_def Let_def)
qed

lemma findStart_wrapped: "findStart (DLE # STX # xs) 0 = Some 2"
  by simp

declare destuff.simps [simp del]

lemma destuff_stuffed: "destuff (pre @ stuffed x) (length pre) acc = acc @ x"
proof (induction x arbitrary: pre acc)
  case Nil
  show ?case by (subst destuff.simps) simp
next
  case (Cons b x)
  show ?case
  proof (cases "b = DLE")
    case True
    have "destuff (pre @ stuffed (b # x)) (length pre) acc
          = destuff ((pre @ [DLE, DLE]) @ stuffed x) (length (pre @ [DLE, DLE])) (acc @ [DLE])"
      using True by (subst destuff.simps) (simp add: nth_append)
    also have "\<dots> = (acc @ [DLE]) @ x"
      by (rule Cons.IH)
    finally show ?thesis using True by simp
  next
    case False
    have "destuff (pre @ stuffed (b # x)) (length pre) acc
          = destuff ((pre @ [b]) @ stuffed x) (length (pre @ [b])) (acc @ [b])"
      using False by (subst destuff.simps) (simp add: nth_append)
    also have "\<dots> = (acc @ [b]) @ x"
      by (rule Cons.IH)
    finally show ?thesis by simp
  qed
qed

text \<open>
  Claim C5. Unwrapping a wrapped payload gives the payload back, for every byte
  sequence, with or without \<open>0xFE\<close> bytes and also for the empty one; and the framed
  bytes \<open>FE 02 01 FE FE 02\<close> unwrap to \<open>01 FE 02\<close>.
\<close>

theorem unwrapFromTcp_wrapForTcp:
  "unwrapFromTcp (wrapForTcp x) = Some x \<and>
   unwrapFromTcp [0xFE, 0x02, 0x01, 0xFE, 0xFE, 0x02] = Some [0x01, 0xFE, 0x02]"
proof
  have "destuff ([DLE, STX] @ stuffed x) (length [DLE, STX]) [] = [] @ x"
    by (rule destuff_stuffed)
  then show "unwrapFromTcp (wrapForTcp x) = Some x"
    by (simp add: unwrapFromTcp_def wrapForTcp_eq)
  show "unwrapFromTcp [0xFE, 0x02, 0x01, 0xFE, 0xFE, 0x02] = Some [0x01, 0xFE, 0x02]"
    by (simp add: unwrapFromTcp_def DLE_def STX_def destuff.simps)
qed

section \<open>The TCP receive path\<close>

declare handleLoop.simps [simp del]
declare findStart.simps [simp del]

lemma findStart_None_iff:
  "(findStart buffer i = None) =
     (\<forall>j. i \<le> j \<and> j + 1 < length buffer \<longrightarrow> \<not> (buffer ! j = DLE \<and> buffer ! (j + 1) = STX))"
proof (induction buffer i rule: findStart.induct)
  case (1 buffer i)
  show ?case
  proof (cases "i + 1 < length buffer")
    case False
    then have "findStart buffer i = None"
      by (simp add: findStart.simps [of buffer i])
    with False show ?thesis
      by auto
  next
    case True
    show ?thesis
    proof (cases "buffer ! i = DLE \<and> buffer ! (i + 1) = STX")
      case hit: True
      with True have "findStart buffer i = Some (i + 2)"
        by (simp add: findStart.simps [of buffer i])
      with True hit show ?thesis
        by auto
    next
      case miss: False
      have "findStart buffer i = findStart buffer (i + 1)"
        using True miss by (auto simp: findStart.simps [of buffer i])
      then have "(findStart buffer i = None) =
                   (\<forall>j. i + 1 \<le> j \<and> j + 1 < length buffer \<longrightarrow>
                           \<not> (buffer ! j = DLE \<and> buffer ! (j + 1) = STX))"
        using "1.IH" [OF True miss] by simp
      also have "\<dots> = (\<forall>j. i \<le> j \<and> j + 1 < length buffer \<longrightarrow>
                           \<not> (buffer ! j = DLE \<and> buffer ! (j + 1) = STX))"
      proof (intro iffI allI impI)
        fix j
        assume a: "\<forall>j. i + 1 \<le> j \<and> j + 1 < length buffer \<longrightarrow>
                           \<not> (buffer ! j = DLE \<and> buffer ! (j + 1) = STX)"
          and j: "i \<le> j \<and> j + 1 < length buffer"
        show "\<not> (buffer ! j = DLE \<and> buffer ! (j + 1) = STX)"
        proof (cases "j = i")
          case True
          with miss show ?thesis by simp
        next
          case False
          with j have "i + 1 \<le> j \<and> j + 1 < length buffer" by simp
          with a show ?thesis by blast
        qed
      next
        fix j
        assume a: "\<forall>j. i \<le> j \<and> j + 1 < length buffer \<longrightarrow>
                           \<not> (buffer ! j = DLE \<and> buffer ! (j + 1) = STX)"
          and j: "i + 1 \<le> j \<and> j + 1 < length buffer"
        then have "i \<le> j \<and> j + 1 < length buffer" by simp
        with a show "\<not> (buffer ! j = DLE \<and> buffer ! (j + 1) = STX)" by blast
      qed
      finally show ?thesis .
    qed
  qed
qed

lemma unwrapFromTcp_None_iff:
  "(unwrapFromTcp buffer = None) =
     (\<forall>j. j + 1 < length buffer \<longrightarrow> \<not> (buffer ! j = DLE \<and> buffer ! (j + 1) = STX))"
proof -
  have "(unwrapFromTcp buffer = None) = (findStart buffer 0 = None)"
    by (simp add: unwrapFromTcp_def split: option.splits)
  then show ?thesis
    by (simp add: findStart_None_iff)
qed

lemma unwrapFromTcp_suffix:
  assumes "unwrapFromTcp (xs @ ys) = None"
  shows "unwrapFromTcp ys = None"
  unfolding unwrapFromTcp_None_iff
proof (intro allI impI)
  fix j
  assume j: "j + 1 < length ys"
  then have "length xs + j + 1 < length (xs @ ys)"
    by simp
  with assms have "\<not> ((xs @ ys) ! (length xs + j) = DLE \<and> (xs @ ys) ! (length xs + j + 1) = STX)"
    unfolding unwrapFromTcp_None_iff by blast
  then show "\<not> (ys ! j = DLE \<and> ys ! (j + 1) = STX)"
    by (simp add: nth_append add.assoc)
qed

lemma parsePacket_buildV31:
  assumes "valid_V31 m"
  shows "parsePacket (buildV31 m) src = Inr (packet_V31 src m)"
  by (simp add: parsePacket_def parse_buildV31 [OF assms] packet_V31_def text16_def)

lemma length_packets: "length (concat (map buildV31 ms)) = 18 * length ms"
  by (induction ms) (simp_all add: length_buildV31)

lemma header_range:
  assumes "valid_V31 m"
  shows "0x80 \<le> unat ((buildV31 m @ rest) ! 0)" "unat ((buildV31 m @ rest) ! 0) \<le> 0xFE"
proof -
  have h: "unat ((buildV31 m @ rest) ! 0) = nat (address m + 128)"
    using assms by (simp add: buildV31_eq valid_V31_def header_byte)
  show "0x80 \<le> unat ((buildV31 m @ rest) ! 0)" "unat ((buildV31 m @ rest) ! 0) \<le> 0xFE"
    unfolding h using assms unfolding valid_V31_def by arith+
qed

lemma detectVersion_not_V5:
  assumes "2 \<le> length buffer" "detectVersion buffer \<noteq> Inr (Some V5_0)"
  shows "detectVersion buffer = Inr (detectHeader buffer)"
  using assms by (auto simp: detectVersion_def readUInt16LE_def split: if_splits)

lemma detectVersion_packets:
  assumes "list_all valid_V31 (m # ms)"
    and "detectVersion (concat (map buildV31 (m # ms))) \<noteq> Inr (Some V5_0)"
  shows "detectVersion (concat (map buildV31 (m # ms))) = Inr (Some V3_1)"
proof -
  define rest where "rest = concat (map buildV31 ms)"
  define b where "b = buildV31 m @ rest"
  have v: "valid_V31 m"
    using assms(1) by simp
  have l: "2 \<le> length b"
    by (simp add: b_def length_buildV31)
  have "detectVersion b \<noteq> Inr (Some V5_0)"
    unfolding b_def rest_def using assms(2) by simp
  then have d: "detectVersion b = Inr (detectHeader b)"
    by (rule detectVersion_not_V5 [OF l])
  have c: "uint (b ! 18) \<noteq> expectedChecksum b" if "18 < length b"
  proof (cases ms)
    case Nil
    with that show ?thesis by (simp add: b_def rest_def length_buildV31)
  next
    case (Cons m' ms')
    then have v': "valid_V31 m'"
      using assms(1) by simp
    have e: "b ! 18 = (buildV31 m' @ concat (map buildV31 ms')) ! 0"
      by (simp add: b_def rest_def Cons nth_append length_buildV31)
    have "0x80 \<le> unat (b ! 18)"
      unfolding e by (rule header_range(1) [OF v'])
    then have "128 \<le> uint (b ! 18)"
      unfolding uint_nat by linarith
    with expectedChecksum_range [of b] show ?thesis
      by simp
  qed
  have h: "0x80 \<le> unat (b ! 0)" "unat (b ! 0) \<le> 0xFE"
    unfolding b_def by (rule header_range [OF v])+
  have "detectHeader b = Some V3_1"
    using h c by (auto simp: detectHeader_def Let_def)
  with d show ?thesis
    unfolding b_def rest_def by simp
qed

lemma handleLoop_packets:
  assumes "list_all valid_V31 ms" "no_V5_clash ms"
    and "unwrapFromTcp (concat (map buildV31 ms)) = None"
  shows "handleLoop (concat (map buildV31 ms)) src emitted
         = Inr ([], emitted @ map (packet_V31 src) ms)"
  using assms
proof (induction ms arbitrary: emitted)
  case Nil
  show ?case
    by (subst handleLoop.simps) simp
next
  case (Cons m ms)
  define rest where "rest = concat (map buildV31 ms)"
  define b where "b = buildV31 m @ rest"
  have b: "concat (map buildV31 (m # ms)) = b"
    by (simp add: b_def rest_def)
  have v: "valid_V31 m" "list_all valid_V31 ms"
    using Cons.prems(1) by simp_all
  have n: "no_V5_clash ms"
    using Cons.prems(2) by simp
  have u: "unwrapFromTcp b = None"
    unfolding b_def rest_def using Cons.prems(3) by simp
  have u': "unwrapFromTcp rest = None"
    using u unfolding b_def by (rule unwrapFromTcp_suffix)
  have d: "detectVersion b = Inr (Some V3_1)"
    unfolding b [symmetric] using Cons.prems(2)
    by (intro detectVersion_packets [OF Cons.prems(1)]) simp
  have s: "buf_slice b 0 18 = buildV31 m" "drop 18 b = rest"
    by (simp_all add: b_def buf_slice_def length_buildV31)
  have l: "b \<noteq> []" "18 \<le> length b"
    using length_buildV31 [of m] by (auto simp: b_def)
  have "handleLoop b src emitted = handleLoop rest src (emitted @ [packet_V31 src m])"
    by (subst handleLoop.simps) (simp add: l u d s parsePacket_buildV31 [OF v(1)])
  also have "\<dots> = Inr ([], (emitted @ [packet_V31 src m]) @ map (packet_V31 src) ms)"
    unfolding rest_def by (rule Cons.IH [OF v(2) n u' [unfolded rest_def]])
  finally show ?case
    unfolding b [symmetric] by simp
qed

lemma no_V5_clash_short:
  assumes "list_all valid_V31 ms" "length ms \<le> 7"
  shows "no_V5_clash ms"
  using assms
proof (induction ms)
  case Nil
  show ?case by simp
next
  case (Cons m ms)
  define rest where "rest = concat (map buildV31 ms)"
  define b where "b = buildV31 m @ rest"
  have v: "valid_V31 m"
    using Cons.prems(1) by simp
  have l: "length b = 18 + 18 * length ms"
    by (simp add: b_def rest_def length_buildV31 length_packets)
  have h: "0x80 \<le> unat (b ! 0)"
    unfolding b_def by (rule header_range(1) [OF v])
  have "detectVersion b \<noteq> Inr (Some V5_0)"
    using h l Cons.prems(2)
    by (auto simp: detectVersion_def readUInt16LE_def detectHeader_def Let_def split: if_splits)
  then have "detectVersion (concat (map buildV31 (m # ms))) \<noteq> Inr (Some V5_0)"
    unfolding b_def rest_def by simp
  with Cons show ?case
    by simp
qed

lemma receiveChunks_acc:
  assumes "list_all chunk_ok chunks"
  shows "receiveChunks [] src (map (\<lambda>ms. concat (map buildV31 ms)) chunks) emitted
         = Inr ([], emitted @ map (packet_V31 src) (concat chunks))"
  using assms
proof (induction chunks arbitrary: emitted)
  case Nil
  show ?case by simp
next
  case (Cons ms chunks)
  have c: "list_all valid_V31 ms" "no_V5_clash ms"
    "unwrapFromTcp (concat (map buildV31 ms)) = None"
    using Cons.prems by (simp_all add: chunk_ok_def)
  have h: "handleData [] (concat (map buildV31 ms)) src = Inr ([], map (packet_V31 src) ms)"
    using handleLoop_packets [OF c, of src "[]"] by (simp add: handleData_def)
  have "receiveChunks [] src (map (\<lambda>ms. concat (map buildV31 ms)) (ms # chunks)) emitted
        = receiveChunks [] src (map (\<lambda>ms. concat (map buildV31 ms)) chunks)
            (emitted @ map (packet_V31 src) ms)"
    by (simp add: h)
  also have "\<dots> = Inr ([], (emitted @ map (packet_V31 src) ms)
                          @ map (packet_V31 src) (concat chunks))"
    using Cons.prems by (intro Cons.IH) simp
  finally show ?case by simp
qed

text \<open>
  Claim C6, as stated: N valid V3.1 packets, delivered in chunks split anywhere, give
  exactly N parsed packets with the original contents. One valid packet delivered as
  10 bytes and then 8 bytes gives two packets, neither of them decoded: a buffer of
  fewer than 18 bytes is emitted as it is and the receive buffer is emptied.
\<close>

theorem receiveChunks_packets_counterexample:
  "valid_V31 example_V31 \<and>
   take 10 (buildV31 example_V31) @ drop 10 (buildV31 example_V31) = buildV31 example_V31 \<and>
   receiveChunks [] ''tcp'' [take 10 (buildV31 example_V31), drop 10 (buildV31 example_V31)] []
     = Inr ([], [\<lparr>rawData = [0x81, 0x31, 0x43, 0x41, 0x4D, 0x20, 0x31, 0x20, 0x20, 0x20],
                  parsed = None, error = Some ''Failed to parse packet'', source = ''tcp''\<rparr>,
                 \<lparr>rawData = [0x20, 0x20, 0x20, 0x20, 0x20, 0x20, 0x20, 0x20],
                  parsed = None, error = Some ''Failed to parse packet'', source = ''tcp''\<rparr>])"
  by code_simp

text \<open>
  Claim C6, amended: when every chunk is a run of whole 18-byte V3.1 packets of valid
  messages, contains no \<open>0xFE\<close>, \<open>0x02\<close> pair, and no remainder of it is taken for a V5.0
  packet by \<^verbatim>\<open>detectVersion\<close> (\<open>chunk_ok\<close>), the receive path, started with an empty
  buffer, ends with an empty buffer and has emitted exactly one packet for each
  message, in order, with the 18 bytes as raw data and the decoded message (its text
  padded to 16 characters). No remainder is taken for V5.0 in a chunk of at most 7
  packets.
\<close>

theorem receiveChunks_packets:
  "(list_all chunk_ok chunks \<longrightarrow>
      receiveChunks [] src (map (\<lambda>ms. concat (map buildV31 ms)) chunks) []
        = Inr ([], map (packet_V31 src) (concat chunks)) \<and>
      length (map (packet_V31 src) (concat chunks)) = length (concat chunks)) \<and>
   (list_all valid_V31 ms \<and> length ms \<le> 7 \<longrightarrow> no_V5_clash ms)"
  using receiveChunks_acc [of chunks src "[]"] no_V5_clash_short [of ms] by simp

theorem receiveChunks_packets_witness:
  "list_all chunk_ok [[example_V31, example_V31], [example_V31]] \<and>
   receiveChunks [] ''tcp''
     [buildV31 example_V31 @ buildV31 example_V31, buildV31 example_V31] []
     = Inr ([], [packet_V31 ''tcp'' example_V31, packet_V31 ''tcp'' example_V31,
                 packet_V31 ''tcp'' example_V31])"
proof -
  have c: "list_all chunk_ok [[example_V31, example_V31], [example_V31]]"
    by code_simp
  show ?thesis
    using receiveChunks_packets [of "[[example_V31, example_V31], [example_V31]]" "''tcp''" "[]"] c
    by simp
qed

end
